theory Spec2Isabelle
  imports Main "HOL-Library.AList"
begin

text \<open>
  The bundle logic of the PolyDoc library's cloud functions: the Bundle Builder
  \<open>generateBundleLogic\<close> (\<^verbatim>\<open>generateBundleLogic.ts\<close>), the Language Folder
  Initializer \<open>createLanguageFolders\<close> (\<^verbatim>\<open>languageFolderUtils.ts\<close>) and the
  upload handler of \<^verbatim>\<open>index.ts\<close> that calls the Initializer.
\<close>

section \<open>Strings and the path patterns\<close>

text \<open>
  An object name is a \<^typ>\<open>string\<close>: a list of code units, each below 256.  The
  three patterns of the source only tell \<open>/\<close>, \<open>.\<close> and the letters of
  \<open>videos\<close>, \<open>mp4\<close> and \<open>vtt\<close> apart from everything else.
\<close>

definition slash :: char where
  "slash = CHR ''/''"

text \<open>\<^verbatim>\<open>s.startsWith(p)\<close> and \<^verbatim>\<open>s.endsWith(p)\<close>.\<close>

definition startsWith :: "string \<Rightarrow> string \<Rightarrow> bool" where
  "startsWith s p = (take (length p) s = p)"

definition endsWith :: "string \<Rightarrow> string \<Rightarrow> bool" where
  "endsWith s p = (length p \<le> length s \<and> drop (length s - length p) s = p)"

text \<open>
  The pattern piece \<^verbatim>\<open>([^/]+)\/\<close>: the longest run of characters other than
  \<open>/\<close>, which must be non-empty and followed by a \<open>/\<close>.  The result is the
  captured run and what follows the \<open>/\<close>.  The run cannot be shortened by
  backtracking, since the character after a shorter run is not a \<open>/\<close>.
\<close>

definition segment :: "string \<Rightarrow> (string \<times> string) option" where
  "segment s =
     (let seg = takeWhile (\<lambda>ch. ch \<noteq> slash) s;
          rest = dropWhile (\<lambda>ch. ch \<noteq> slash) s
      in if seg = [] \<or> rest = [] then None else Some (seg, tl rest))"

text \<open>The anchored literal \<^verbatim>\<open>^videos\/\<close>.\<close>

definition videosRoot :: "string \<Rightarrow> string option" where
  "videosRoot s = (if startsWith s ''videos/'' then Some (drop (length ''videos/'') s) else None)"

text \<open>
  The tail \<^verbatim>\<open>[^/]+\.(mp4|vtt)$\<close> of the asset pattern, applied to what follows
  the fourth captured segment: no \<open>/\<close> up to the end of the name, at least one
  character before the final \<open>.mp4\<close> or \<open>.vtt\<close>.  The result is the captured
  extension.
\<close>

definition fileExt :: "string \<Rightarrow> string option" where
  "fileExt f =
     (if slash \<in> set f \<or> length f < 5 then None
      else if endsWith f ''.mp4'' then Some ''mp4''
      else if endsWith f ''.vtt'' then Some ''vtt''
      else None)"

text \<open>
  \<^verbatim>\<open>filePath.match(/^videos\/([^/]+)\/([^/]+)\/([^/]+)\/([^/]+)\/[^/]+\.(mp4|vtt)$/)\<close>:
  the five captures \<open>(fileClinic, fileDept, videoId, lang, ext)\<close>, or \<open>None\<close> when the
  name does not match.
\<close>

definition matchAsset :: "string \<Rightarrow> (string \<times> string \<times> string \<times> string \<times> string) option" where
  "matchAsset filePath =
     (case videosRoot filePath of None \<Rightarrow> None
      | Some r0 \<Rightarrow>
     (case segment r0 of None \<Rightarrow> None
      | Some (fileClinic, r1) \<Rightarrow>
     (case segment r1 of None \<Rightarrow> None
      | Some (fileDept, r2) \<Rightarrow>
     (case segment r2 of None \<Rightarrow> None
      | Some (videoId, r3) \<Rightarrow>
     (case segment r3 of None \<Rightarrow> None
      | Some (lang, r4) \<Rightarrow>
     (case fileExt r4 of None \<Rightarrow> None
      | Some ext \<Rightarrow> Some (fileClinic, fileDept, videoId, lang, ext)))))))"

text \<open>
  \<^verbatim>\<open>path.match(/^videos\/([^/]+)\/([^/]+)\/([^/]+)\//)\<close> of the upload handler
  that provisions language folders: three captures, each followed by a \<open>/\<close>; the
  pattern is not anchored at the end.
\<close>

definition matchVideoDir :: "string \<Rightarrow> (string \<times> string \<times> string) option" where
  "matchVideoDir path =
     (case videosRoot path of None \<Rightarrow> None
      | Some r0 \<Rightarrow>
     (case segment r0 of None \<Rightarrow> None
      | Some (clinicSeg, r1) \<Rightarrow>
     (case segment r1 of None \<Rightarrow> None
      | Some (departmentSeg, r2) \<Rightarrow>
     (case segment r2 of None \<Rightarrow> None
      | Some (videoName, r3) \<Rightarrow> Some (clinicSeg, departmentSeg, videoName)))))"

text \<open>
  The \<open>/\<close>-separated segments of a name, as \<^verbatim>\<open>name.split("/")\<close> gives them.
  This is the vocabulary of the specification's path grammar; the source itself only
  uses the patterns above.
\<close>

fun splitSlash :: "string \<Rightarrow> string list" where
  "splitSlash [] = [[]]"
| "splitSlash (ch # cs) =
     (if ch = slash then [] # splitSlash cs
      else (case splitSlash cs of [] \<Rightarrow> [[ch]] | s # ss \<Rightarrow> (ch # s) # ss))"

text \<open>
  \<^verbatim>\<open>String.prototype.trim\<close>: white space and line terminators are removed at both
  ends.  Below 256 these are TAB, LF, VT, FF, CR, SPACE and NO-BREAK SPACE.
\<close>

definition isWhiteSpace :: "char \<Rightarrow> bool" where
  "isWhiteSpace ch = (of_char ch \<in> {9, 10, 11, 12, 13, 32, 160 :: nat})"

definition trim :: "string \<Rightarrow> string" where
  "trim s = rev (dropWhile isWhiteSpace (rev (dropWhile isWhiteSpace s)))"

section \<open>The bundle\<close>

record LanguageAsset =
  videoPath :: string
  subtitlePath :: string

record VideoEntry =
  id' :: string
  title :: string
  languages :: "(string \<times> LanguageAsset) list"

record Bundle =
  version :: string
  clinic :: string
  department :: string
  videos :: "VideoEntry list"

text \<open>
  A JavaScript \<^verbatim>\<open>Map\<close> keeps its keys in insertion order; \<^verbatim>\<open>set\<close> on a key
  already there replaces the value where it stands, on a new key it appends.  That is
  \<^const>\<open>AList.update\<close> on an association list, and \<^verbatim>\<open>get\<close> is
  \<^const>\<open>map_of\<close>.

  One step of the scan loop of \<open>generateBundleLogic\<close> (lines 30 to 53): the two
  \<^verbatim>\<open>continue\<close> checks, the match, the check of the captured clinic and
  department, and the assignment.  The entry object found or created for
  \<open>(videoId, lang)\<close> is mutated inside the two maps; here the changed entry is stored
  back under the same keys, which keeps every position.
\<close>

type_synonym langMap = "(string \<times> LanguageAsset) list"
type_synonym videoMap = "(string \<times> langMap) list"

definition scanFile :: "string \<Rightarrow> string \<Rightarrow> videoMap \<Rightarrow> string \<Rightarrow> videoMap" where
  "scanFile clinicArg departmentArg videoMap filePath =
     (if \<not> endsWith filePath ''.mp4'' \<and> \<not> endsWith filePath ''.vtt'' then videoMap
      else
        (case matchAsset filePath of None \<Rightarrow> videoMap
         | Some (fileClinic, fileDept, videoId, lang, ext) \<Rightarrow>
             if fileClinic \<noteq> clinicArg \<or> fileDept \<noteq> departmentArg then videoMap
             else
               let langMap = (case map_of videoMap videoId of None \<Rightarrow> [] | Some m \<Rightarrow> m);
                   langEntry = (case map_of langMap lang of
                                  None \<Rightarrow> \<lparr>videoPath = [], subtitlePath = []\<rparr>
                                | Some e \<Rightarrow> e);
                   langEntry' = (if ext = ''mp4'' then langEntry\<lparr>videoPath := filePath\<rparr>
                                 else langEntry\<lparr>subtitlePath := filePath\<rparr>)
               in AList.update videoId (AList.update lang langEntry' langMap) videoMap))"

definition scanFiles :: "string \<Rightarrow> string \<Rightarrow> string list \<Rightarrow> videoMap" where
  "scanFiles clinicArg departmentArg files = foldl (scanFile clinicArg departmentArg) [] files"

text \<open>
  The second loop (lines 55 to 65) turns the map into the \<open>videos\<close> array.  The
  \<open>languages\<close> value of a video is a plain object filled by
  \<^verbatim>\<open>languages[lang] = {...}\<close>.  Its own enumerable properties, which are what
  \<^verbatim>\<open>JSON.stringify\<close> writes, are kept here as an association list in the order of
  \<^verbatim>\<open>[[OwnPropertyKeys]]\<close>: array-index keys (canonical decimal numerals up to
  \<open>2^32 - 2\<close>) first, in ascending numeric order, then the other keys in the order
  of their creation.  An assignment to the key \<^verbatim>\<open>__proto__\<close> with an object value
  runs the inherited setter, which replaces the prototype and creates no own property.
\<close>

definition digitVal :: "char \<Rightarrow> nat option" where
  "digitVal ch =
     (let n = (of_char ch :: nat) in if 48 \<le> n \<and> n \<le> 57 then Some (n - 48) else None)"

fun decimal :: "nat \<Rightarrow> string \<Rightarrow> nat option" where
  "decimal acc [] = Some acc"
| "decimal acc (ch # cs) =
     (case digitVal ch of None \<Rightarrow> None | Some d \<Rightarrow> decimal (10 * acc + d) cs)"

definition arrayIndex :: "string \<Rightarrow> nat option" where
  "arrayIndex k =
     (if k = [] \<or> (hd k = CHR ''0'' \<and> length k > 1) then None
      else (case decimal 0 k of None \<Rightarrow> None
            | Some n \<Rightarrow> if n \<le> 4294967294 then Some n else None))"

fun insertIndex :: "nat \<Rightarrow> string \<Rightarrow> 'v \<Rightarrow> (string \<times> 'v) list \<Rightarrow> (string \<times> 'v) list" where
  "insertIndex n k v [] = [(k, v)]"
| "insertIndex n k v (p # ps) =
     (case arrayIndex (fst p) of
        None \<Rightarrow> (k, v) # p # ps
      | Some m \<Rightarrow> if m < n then p # insertIndex n k v ps else (k, v) # p # ps)"

definition objSet :: "(string \<times> 'v) list \<Rightarrow> string \<Rightarrow> 'v \<Rightarrow> (string \<times> 'v) list" where
  "objSet obj k v =
     (if k = ''__proto__'' then obj
      else if k \<in> fst ` set obj then AList.update k v obj
      else (case arrayIndex k of
              None \<Rightarrow> obj @ [(k, v)]
            | Some n \<Rightarrow> insertIndex n k v obj))"

definition languagesOf :: "langMap \<Rightarrow> (string \<times> LanguageAsset) list" where
  "languagesOf langMap =
     foldl (\<lambda>obj (lang, paths).
              objSet obj lang \<lparr>videoPath = videoPath paths, subtitlePath = subtitlePath paths\<rparr>)
       [] langMap"

definition videosOf :: "videoMap \<Rightarrow> VideoEntry list" where
  "videosOf videoMap =
     map (\<lambda>(videoId, langMap).
            \<lparr>id' = videoId, title = videoId, languages = languagesOf langMap\<rparr>) videoMap"

text \<open>The Bundle value that \<open>generateBundleLogic\<close> assembles from a listing.\<close>

definition buildBundle :: "string \<Rightarrow> string \<Rightarrow> string list \<Rightarrow> Bundle" where
  "buildBundle clinicArg departmentArg files =
     \<lparr>version = ''1.0'', clinic = clinicArg, department = departmentArg,
      videos = videosOf (scanFiles clinicArg departmentArg files)\<rparr>"

text \<open>Every \<open>videoPath\<close> and \<open>subtitlePath\<close> value of a bundle, entry by entry.\<close>

definition assetPaths :: "LanguageAsset \<Rightarrow> string list" where
  "assetPaths a = [videoPath a, subtitlePath a]"

definition bundlePaths :: "Bundle \<Rightarrow> string list" where
  "bundlePaths b = concat (map (\<lambda>v. concat (map (\<lambda>(l, a). assetPaths a) (languages v))) (videos b))"

section \<open>Serialisation\<close>

text \<open>
  \<^verbatim>\<open>JSON.stringify(bundle, null, 2)\<close>.  A string is quoted with the escapes of
  \<^verbatim>\<open>QuoteJSONString\<close>; an object or array with members is written one member a
  line, indented by two more spaces than its parent, and an empty one as \<open>{}\<close> or
  \<open>[]\<close>.
\<close>

datatype json = JString string | JArray "json list" | JObject "(string \<times> json) list"

definition hexDigit :: "nat \<Rightarrow> char" where
  "hexDigit n = ''0123456789abcdef'' ! (n mod 16)"

definition quoteChar :: "char \<Rightarrow> string" where
  "quoteChar ch =
     (let n = (of_char ch :: nat) in
      if n = 8 then [CHR 0x5C, CHR ''b'']
      else if n = 9 then [CHR 0x5C, CHR ''t'']
      else if n = 10 then [CHR 0x5C, CHR ''n'']
      else if n = 12 then [CHR 0x5C, CHR ''f'']
      else if n = 13 then [CHR 0x5C, CHR ''r'']
      else if n = 34 then [CHR 0x5C, CHR 0x22]
      else if n = 92 then [CHR 0x5C, CHR 0x5C]
      else if n < 32 then [CHR 0x5C, CHR ''u'', CHR ''0'', CHR ''0'', hexDigit (n div 16), hexDigit n]
      else [ch])"

definition quoteJSON :: "string \<Rightarrow> string" where
  "quoteJSON s = [CHR 0x22] @ concat (map quoteChar s) @ [CHR 0x22]"

fun joinWith :: "string \<Rightarrow> string list \<Rightarrow> string" where
  "joinWith sep [] = []"
| "joinWith sep [x] = x"
| "joinWith sep (x # y # ys) = x @ sep @ joinWith sep (y # ys)"

fun serialize :: "string \<Rightarrow> json \<Rightarrow> string" where
  "serialize indent (JString s) = quoteJSON s"
| "serialize indent (JArray xs) =
     (if xs = [] then ''[]''
      else ''['' @ [CHR 0x0A] @ (indent @ ''  '') @
           joinWith ('','' @ [CHR 0x0A] @ (indent @ ''  ''))
             (map (serialize (indent @ ''  '')) xs) @
           [CHR 0x0A] @ indent @ '']'')"
| "serialize indent (JObject ps) =
     (if ps = [] then ''{}''
      else ''{'' @ [CHR 0x0A] @ (indent @ ''  '') @
           joinWith ('','' @ [CHR 0x0A] @ (indent @ ''  ''))
             (map (\<lambda>(k, v). quoteJSON k @ '': '' @ serialize (indent @ ''  '') v) ps) @
           [CHR 0x0A] @ indent @ ''}'')"

definition assetJson :: "LanguageAsset \<Rightarrow> json" where
  "assetJson a =
     JObject [(''videoPath'', JString (videoPath a)), (''subtitlePath'', JString (subtitlePath a))]"

definition videoJson :: "VideoEntry \<Rightarrow> json" where
  "videoJson v =
     JObject [(''id'', JString (id' v)), (''title'', JString (title v)),
              (''languages'', JObject (map (\<lambda>(l, a). (l, assetJson a)) (languages v)))]"

definition bundleJson :: "Bundle \<Rightarrow> json" where
  "bundleJson b =
     JObject [(''version'', JString (version b)), (''clinic'', JString (clinic b)),
              (''department'', JString (department b)),
              (''videos'', JArray (map videoJson (videos b)))]"

definition JSON_stringify :: "Bundle \<Rightarrow> string" where
  "JSON_stringify b = serialize [] (bundleJson b)"

section \<open>The storage bucket\<close>

text \<open>
  The storage service is outside the repository.  The code uses two of its operations:
  \<^verbatim>\<open>bucket.getFiles({prefix, maxResults})\<close>, the names of the objects whose name
  starts with the prefix, and \<^verbatim>\<open>bucket.file(path).save(data, options)\<close>, a
  whole-object write that replaces what was stored under the name.  Either may be
  rejected; then nothing is stored and the rejection is thrown to the caller.

  A bucket is the list of its objects in the order the service lists them, together
  with the log of the names written so far.  A write under a new name puts the object
  at the end of the list; no property below depends on where it is put.  Which calls the service rejects, and the
  time a marker is stamped with (\<^verbatim>\<open>new Date().toISOString()\<close>), are not decided
  by the program: they are given by an \<open>Env\<close>.
\<close>

record StoredObject =
  content :: string
  contentType :: string
  customMetadata :: "(string \<times> string) list"

record Bucket =
  objects :: "(string \<times> StoredObject) list"
  writes :: "string list"

record Env =
  listFails :: "string \<Rightarrow> bool"
  saveFails :: "string \<Rightarrow> bool"
  isoTime :: "string \<Rightarrow> string"

datatype storageError = ListFailed string | SaveFailed string

definition listed :: "string \<Rightarrow> Bucket \<Rightarrow> string list" where
  "listed prefix bucket = filter (\<lambda>n. startsWith n prefix) (map fst (objects bucket))"

definition getFiles :: "Env \<Rightarrow> string \<Rightarrow> nat option \<Rightarrow> Bucket \<Rightarrow> storageError + string list" where
  "getFiles env prefix maxResults bucket =
     (if listFails env prefix then Inl (ListFailed prefix)
      else Inr (case maxResults of
                  None \<Rightarrow> listed prefix bucket
                | Some m \<Rightarrow> take m (listed prefix bucket)))"

definition save :: "Env \<Rightarrow> string \<Rightarrow> StoredObject \<Rightarrow> Bucket \<Rightarrow> storageError + Bucket" where
  "save env path obj bucket =
     (if saveFails env path then Inl (SaveFailed path)
      else Inr (bucket\<lparr>objects := AList.update path obj (objects bucket),
                       writes := writes bucket @ [path]\<rparr>))"

section \<open>The Bundle Builder\<close>

definition videosPrefix :: "string \<Rightarrow> string \<Rightarrow> string" where
  "videosPrefix clinicArg departmentArg = ''videos/'' @ clinicArg @ ''/'' @ departmentArg @ ''/''"

definition bundlePathOf :: "string \<Rightarrow> string \<Rightarrow> string" where
  "bundlePathOf clinicArg departmentArg =
     ''bundles/'' @ clinicArg @ ''/'' @ departmentArg @ ''/bundle.json''"

definition snapshot :: "Bundle \<Rightarrow> StoredObject" where
  "snapshot b =
     \<lparr>content = JSON_stringify b, contentType = ''application/json'', customMetadata = []\<rparr>"

text \<open>
  \<open>generateBundleLogic\<close>: list, scan, assemble, serialise, write.  The result is the
  returned snapshot path or the thrown error, and the bucket as the call leaves it.
\<close>

definition generateBundleLogic ::
  "Env \<Rightarrow> string \<Rightarrow> string \<Rightarrow> Bucket \<Rightarrow> (storageError + string) \<times> Bucket" where
  "generateBundleLogic env clinicArg departmentArg bucket =
     (let prefix = videosPrefix clinicArg departmentArg in
      case getFiles env prefix None bucket of
        Inl e \<Rightarrow> (Inl e, bucket)
      | Inr files \<Rightarrow>
          let bundle = buildBundle clinicArg departmentArg files;
              bundlePath = bundlePathOf clinicArg departmentArg
          in (case save env bundlePath (snapshot bundle) bucket of
                Inl e \<Rightarrow> (Inl e, bucket)
              | Inr bucket' \<Rightarrow> (Inr bundlePath, bucket')))"

section \<open>The Language Folder Initializer\<close>

definition SUPPORTED_LANGUAGES :: "string list" where
  "SUPPORTED_LANGUAGES =
     [''ar'', ''zh'', ''cs'', ''de'', ''en'', ''es'', ''fr'', ''hr'',
      ''hu'', ''it'', ''pl'', ''ro'', ''ru'', ''sk'', ''tr'', ''uk'']"

definition langFolderPathOf :: "string \<Rightarrow> string \<Rightarrow> string \<Rightarrow> string \<Rightarrow> string" where
  "langFolderPathOf clinicArg departmentArg name lang =
     ''videos/'' @ clinicArg @ ''/'' @ departmentArg @ ''/'' @ name @ ''/'' @ lang @ ''/''"

definition placeholderPathOf :: "string \<Rightarrow> string \<Rightarrow> string \<Rightarrow> string \<Rightarrow> string" where
  "placeholderPathOf clinicArg departmentArg name lang =
     langFolderPathOf clinicArg departmentArg name lang @ ''.placeholder''"

definition marker :: "Env \<Rightarrow> string \<Rightarrow> string \<Rightarrow> StoredObject" where
  "marker env name lang =
     \<lparr>content = [], contentType = ''text/plain'',
      customMetadata = [(''purpose'', ''language-folder-structure''), (''videoName'', name),
                        (''language'', lang), (''createdAt'', isoTime env lang)]\<rparr>"

text \<open>
  The loop over the languages (lines 47 to 74 of \<open>createLanguageFolders\<close>); a thrown
  error leaves the loop at once, and the \<^verbatim>\<open>catch\<close> block logs and rethrows it.
\<close>

fun provision ::
  "Env \<Rightarrow> string \<Rightarrow> string \<Rightarrow> string \<Rightarrow> string list \<Rightarrow> Bucket \<Rightarrow> (storageError + unit) \<times> Bucket" where
  "provision env clinicArg departmentArg name [] bucket = (Inr (), bucket)"
| "provision env clinicArg departmentArg name (lang # langs) bucket =
     (case getFiles env (langFolderPathOf clinicArg departmentArg name lang) (Some 1) bucket of
        Inl e \<Rightarrow> (Inl e, bucket)
      | Inr existingFiles \<Rightarrow>
          if length existingFiles = 0 then
            (case save env (placeholderPathOf clinicArg departmentArg name lang)
                    (marker env name lang) bucket of
               Inl e \<Rightarrow> (Inl e, bucket)
             | Inr bucket' \<Rightarrow> provision env clinicArg departmentArg name langs bucket')
          else provision env clinicArg departmentArg name langs bucket)"

text \<open>
  The parameter \<open>langs\<close> is the source's \<^verbatim>\<open>languages\<close>, whose default is the
  same sixteen codes as \<open>SUPPORTED_LANGUAGES\<close>.
\<close>

definition createLanguageFolders ::
  "Env \<Rightarrow> string \<Rightarrow> string \<Rightarrow> string \<Rightarrow> string list \<Rightarrow> Bucket \<Rightarrow> (storageError + unit) \<times> Bucket" where
  "createLanguageFolders env clinicArg departmentArg videoName langs bucket =
     (let name = trim videoName in
      if name = [] then (Inr (), bucket)
      else provision env clinicArg departmentArg name langs bucket)"

text \<open>
  The upload handler of \<^verbatim>\<open>index.ts\<close> that is exported under the name
  \<^verbatim>\<open>createLanguageFolders\<close>: it matches the object name, calls the Initializer with
  the three captures and \<open>SUPPORTED_LANGUAGES\<close>, and logs and drops a thrown error.
\<close>

definition onObjectFinalized_createLanguageFolders :: "Env \<Rightarrow> string \<Rightarrow> Bucket \<Rightarrow> Bucket" where
  "onObjectFinalized_createLanguageFolders env path bucket =
     (case matchVideoDir path of
        None \<Rightarrow> bucket
      | Some (clinicSeg, departmentSeg, videoName) \<Rightarrow>
          snd (createLanguageFolders env clinicSeg departmentSeg videoName
                 SUPPORTED_LANGUAGES bucket))"

section \<open>Vocabulary of the properties\<close>

text \<open>
  A name is accepted by the scan loop for a namespace exactly when the asset pattern
  matches it and the first two captures are the two arguments; the remaining captures
  \<open>(videoId, lang, ext)\<close> say which path it sets.
\<close>

definition assetKey :: "string \<Rightarrow> string \<Rightarrow> string \<Rightarrow> (string \<times> string \<times> string) option" where
  "assetKey clinicArg departmentArg filePath =
     (case matchAsset filePath of None \<Rightarrow> None
      | Some (fileClinic, fileDept, videoId, lang, ext) \<Rightarrow>
          if fileClinic \<noteq> clinicArg \<or> fileDept \<noteq> departmentArg then None
          else Some (videoId, lang, ext))"

text \<open>The path of an entry that a file with extension \<open>ext\<close> sets, and the assignment.\<close>

definition pathField :: "string \<Rightarrow> LanguageAsset \<Rightarrow> string" where
  "pathField ext a = (if ext = ''mp4'' then videoPath a else subtitlePath a)"

definition setPath :: "string \<Rightarrow> string \<Rightarrow> LanguageAsset \<Rightarrow> LanguageAsset" where
  "setPath ext filePath a =
     (if ext = ''mp4'' then a\<lparr>videoPath := filePath\<rparr> else a\<lparr>subtitlePath := filePath\<rparr>)"

text \<open>The entry of the scan's two-level map under a video and a language.\<close>

definition slot :: "videoMap \<Rightarrow> string \<Rightarrow> string \<Rightarrow> LanguageAsset option" where
  "slot vm v l = (case map_of vm v of None \<Rightarrow> None | Some lm \<Rightarrow> map_of lm l)"

text \<open>
  What the scan maintains for the entry under \<open>(v, l)\<close>: each path is still empty or
  is a listed name accepted with that very key, and not both are empty.
\<close>

definition okAsset :: "string \<Rightarrow> string \<Rightarrow> string set \<Rightarrow> string \<Rightarrow> string \<Rightarrow> LanguageAsset \<Rightarrow> bool" where
  "okAsset c d S v l a =
     ((videoPath a = [] \<or> (videoPath a \<in> S \<and> assetKey c d (videoPath a) = Some (v, l, ''mp4''))) \<and>
      (subtitlePath a = [] \<or> (subtitlePath a \<in> S \<and> assetKey c d (subtitlePath a) = Some (v, l, ''vtt''))) \<and>
      (videoPath a \<noteq> [] \<or> subtitlePath a \<noteq> []))"

definition keysDistinct :: "videoMap \<Rightarrow> bool" where
  "keysDistinct vm = (distinct (map fst vm) \<and> (\<forall>(v, lm) \<in> set vm. distinct (map fst lm)))"

text \<open>
  The segments of a name below the root segment \<open>videos\<close>, if it lies under that
  root.
\<close>

definition segmentsUnderRoot :: "string \<Rightarrow> string list option" where
  "segmentsUnderRoot name =
     (case splitSlash name of [] \<Rightarrow> None
      | r # segs \<Rightarrow> if r = ''videos'' then Some segs else None)"

text \<open>
  A prefix is covered when the bucket lists at least one object under it; the names
  written between two states of the bucket.
\<close>

definition covered :: "Bucket \<Rightarrow> string \<Rightarrow> bool" where
  "covered bucket prefix = (listed prefix bucket \<noteq> [])"

definition created :: "Bucket \<Rightarrow> Bucket \<Rightarrow> string list" where
  "created before after = drop (length (writes before)) (writes after)"

text \<open>Concrete environments, buckets and listings for the examples.\<close>

definition reliable :: Env where
  "reliable = \<lparr>listFails = (\<lambda>prefix. False), saveFails = (\<lambda>path. False),
               isoTime = (\<lambda>lang. ''2025-01-01T00:00:00.000Z'')\<rparr>"

definition listingDown :: Env where
  "listingDown = \<lparr>listFails = (\<lambda>prefix. True), saveFails = (\<lambda>path. False),
                  isoTime = (\<lambda>lang. ''2025-01-01T00:00:00.000Z'')\<rparr>"

definition savingDown :: Env where
  "savingDown = \<lparr>listFails = (\<lambda>prefix. False), saveFails = (\<lambda>path. True),
                 isoTime = (\<lambda>lang. ''2025-01-01T00:00:00.000Z'')\<rparr>"

definition emptyBucket :: Bucket where
  "emptyBucket = \<lparr>objects = [], writes = []\<rparr>"

definition exampleListing :: "string list" where
  "exampleListing =
     [''videos/c1/d1/v1/en/a.mp4'', ''videos/c1/d1/v1/en/a.vtt'', ''videos/c1/d1/v1/fr/b.mp4'']"

definition exampleBucket :: Bucket where
  "exampleBucket =
     \<lparr>objects = map (\<lambda>n. (n, \<lparr>content = ''data'', contentType = ''application/octet-stream'',
                               customMetadata = []\<rparr>)) exampleListing,
      writes = []\<rparr>"

section \<open>The path patterns\<close>

lemma segment_SomeD:
  assumes "segment s = Some (seg, rest)"
  shows "s = seg @ slash # rest" and "seg \<noteq> []" and "slash \<notin> set seg"
proof -
  let ?P = "\<lambda>ch. ch \<noteq> slash"
  from assms have seg: "seg = takeWhile ?P s" and ne: "seg \<noteq> []"
    and dne: "dropWhile ?P s \<noteq> []" and rest: "rest = tl (dropWhile ?P s)"
    by (auto simp: segment_def Let_def split: if_splits)
  from dne have "hd (dropWhile ?P s) = slash"
    using hd_dropWhile [of ?P s] by auto
  with dne rest have "dropWhile ?P s = slash # rest"
    by (cases "dropWhile ?P s") auto
  with seg show "s = seg @ slash # rest"
    using takeWhile_dropWhile_id [of ?P s] by simp
  show "seg \<noteq> []" by (rule ne)
  show "slash \<notin> set seg"
    using seg set_takeWhileD [of slash ?P s] by auto
qed

lemma segment_append:
  assumes "seg \<noteq> []" and "slash \<notin> set seg"
  shows "segment (seg @ slash # rest) = Some (seg, rest)"
proof -
  let ?P = "\<lambda>ch. ch \<noteq> slash"
  from assms(2) have "\<forall>x\<in>set seg. ?P x" by auto
  then have "takeWhile ?P (seg @ slash # rest) = seg"
    and "dropWhile ?P (seg @ slash # rest) = slash # rest"
    by (simp_all add: takeWhile_append2 dropWhile_append2)
  with assms(1) show ?thesis by (simp add: segment_def)
qed

lemma startsWith_iff: "startsWith s p \<longleftrightarrow> (\<exists>r. s = p @ r)"
proof
  assume "startsWith s p"
  then have "s = p @ drop (length p) s"
    unfolding startsWith_def by (metis append_take_drop_id)
  then show "\<exists>r. s = p @ r" ..
next
  assume "\<exists>r. s = p @ r"
  then show "startsWith s p" by (auto simp: startsWith_def)
qed

lemma videosRoot_Some: "videosRoot s = Some r \<longleftrightarrow> s = ''videos/'' @ r"
proof
  assume a: "videosRoot s = Some r"
  then have sw: "startsWith s ''videos/''" and r: "r = drop (length ''videos/'') s"
    by (auto simp only: videosRoot_def split: if_splits)
  from sw obtain r' where "s = ''videos/'' @ r'"
    unfolding startsWith_iff by blast
  with r show "s = ''videos/'' @ r" by simp
next
  assume "s = ''videos/'' @ r"
  then show "videosRoot s = Some r"
    by (simp add: videosRoot_def startsWith_def)
qed

lemma endsWith_append: "endsWith f p \<Longrightarrow> endsWith (s @ f) p"
  by (auto simp: endsWith_def)

lemma fileExt_SomeD:
  assumes "fileExt f = Some e"
  shows "slash \<notin> set f" and "5 \<le> length f"
    and "(e = ''mp4'' \<and> endsWith f ''.mp4'') \<or> (e = ''vtt'' \<and> endsWith f ''.vtt'' \<and> \<not> endsWith f ''.mp4'')"
  using assms by (auto simp: fileExt_def split: if_splits)

lemma matchAsset_SomeD:
  assumes "matchAsset p = Some (c, d, v, l, e)"
  obtains f where "p = ''videos/'' @ c @ slash # d @ slash # v @ slash # l @ slash # f"
    and "c \<noteq> []" "d \<noteq> []" "v \<noteq> []" "l \<noteq> []"
    and "slash \<notin> set c" "slash \<notin> set d" "slash \<notin> set v" "slash \<notin> set l"
    and "fileExt f = Some e"
proof -
  from assms obtain r0 r1 r2 r3 r4 where
    r0: "videosRoot p = Some r0" and s1: "segment r0 = Some (c, r1)"
    and s2: "segment r1 = Some (d, r2)" and s3: "segment r2 = Some (v, r3)"
    and s4: "segment r3 = Some (l, r4)" and fe: "fileExt r4 = Some e"
    by (auto simp: matchAsset_def split: option.splits)
  have "p = ''videos/'' @ c @ slash # d @ slash # v @ slash # l @ slash # r4"
    using r0 segment_SomeD(1) [OF s1] segment_SomeD(1) [OF s2]
      segment_SomeD(1) [OF s3] segment_SomeD(1) [OF s4]
    by (simp add: videosRoot_Some)
  then show thesis
    using segment_SomeD(2,3) [OF s1] segment_SomeD(2,3) [OF s2]
      segment_SomeD(2,3) [OF s3] segment_SomeD(2,3) [OF s4] fe
    by (intro that [of r4]) auto
qed

lemma matchAsset_build:
  assumes "c \<noteq> []" "d \<noteq> []" "v \<noteq> []" "l \<noteq> []"
    and "slash \<notin> set c" "slash \<notin> set d" "slash \<notin> set v" "slash \<notin> set l"
    and "fileExt f = Some e"
  shows "matchAsset (''videos/'' @ c @ slash # d @ slash # v @ slash # l @ slash # f)
           = Some (c, d, v, l, e)"
proof -
  have "videosRoot (''videos/'' @ c @ slash # d @ slash # v @ slash # l @ slash # f)
          = Some (c @ slash # d @ slash # v @ slash # l @ slash # f)"
    by (simp only: videosRoot_Some)
  then show ?thesis
    using assms by (simp add: matchAsset_def segment_append)
qed

lemma matchAsset_endsWith:
  assumes "matchAsset p = Some (c, d, v, l, e)"
  shows "(e = ''mp4'' \<and> endsWith p ''.mp4'') \<or> (e = ''vtt'' \<and> endsWith p ''.vtt'')"
proof -
  from assms obtain f where p: "p = ''videos/'' @ c @ slash # d @ slash # v @ slash # l @ slash # f"
    and fe: "fileExt f = Some e"
    by (rule matchAsset_SomeD)
  have "p = (''videos/'' @ c @ slash # d @ slash # v @ slash # l @ [slash]) @ f"
    using p by simp
  then have "\<And>s. endsWith f s \<Longrightarrow> endsWith p s"
    using endsWith_append by metis
  with fileExt_SomeD(3) [OF fe] show ?thesis by blast
qed

lemma matchAsset_nonempty: "matchAsset [] = None"
  by (simp add: matchAsset_def videosRoot_def startsWith_def)

lemma splitSlash_segment:
  "slash \<notin> set seg \<Longrightarrow> splitSlash (seg @ slash # rest) = seg # splitSlash rest"
  by (induction seg) (auto split: list.splits)

lemma splitSlash_noslash: "slash \<notin> set f \<Longrightarrow> splitSlash f = [f]"
  by (induction f) (auto split: list.splits)

lemma splitSlash_path:
  assumes "slash \<notin> set a" "slash \<notin> set c" "slash \<notin> set d" "slash \<notin> set v"
    "slash \<notin> set l" "slash \<notin> set f"
  shows "splitSlash (a @ slash # c @ slash # d @ slash # v @ slash # l @ slash # f) = [a, c, d, v, l, f]"
  using assms by (simp add: splitSlash_segment splitSlash_noslash)

lemma matchAsset_splitSlash:
  assumes "matchAsset p = Some (c, d, v, l, e)"
  shows "\<exists>f. splitSlash p = [''videos'', c, d, v, l, f]"
proof -
  from assms obtain f where p: "p = ''videos/'' @ c @ slash # d @ slash # v @ slash # l @ slash # f"
    and ns: "slash \<notin> set c" "slash \<notin> set d" "slash \<notin> set v" "slash \<notin> set l"
    and fe: "fileExt f = Some e"
    by (rule matchAsset_SomeD)
  have vs: "slash \<notin> set ''videos''" by (simp add: slash_def)
  have nf: "slash \<notin> set f" by (rule fileExt_SomeD(1) [OF fe])
  have "p = ''videos'' @ slash # c @ slash # d @ slash # v @ slash # l @ slash # f"
    using p by (simp add: slash_def)
  then have "splitSlash p = [''videos'', c, d, v, l, f]"
    using splitSlash_path [OF vs ns nf] by simp
  then show ?thesis ..
qed

lemma splitSlash_nonempty: "splitSlash p \<noteq> []"
  by (induction p) (auto split: list.splits)

lemma splitSlash_consD:
  "splitSlash p = s # t # ts \<Longrightarrow> \<exists>p'. p = s @ slash # p' \<and> splitSlash p' = t # ts \<and> slash \<notin> set s"
proof (induction p arbitrary: s)
  case Nil
  then show ?case by simp
next
  case (Cons ch cs)
  show ?case
  proof (cases "ch = slash")
    case True
    with Cons.prems show ?thesis by auto
  next
    case False
    obtain s' ss where sp: "splitSlash cs = s' # ss"
      using splitSlash_nonempty [of cs] by (cases "splitSlash cs") auto
    with False Cons.prems have s: "s = ch # s'" and ss: "ss = t # ts" by auto
    from Cons.IH [of s'] sp ss obtain p' where "cs = s' @ slash # p'" "splitSlash p' = t # ts"
      "slash \<notin> set s'" by blast
    with s False show ?thesis by auto
  qed
qed

lemma matchVideoDir_segments:
  assumes "splitSlash path = ''videos'' # c # d # v # seg # rest"
    and "c \<noteq> []" "d \<noteq> []" "v \<noteq> []"
  shows "matchVideoDir path = Some (c, d, v)"
proof -
  from splitSlash_consD [OF assms(1)] obtain p1 where p1: "path = ''videos'' @ slash # p1"
    "splitSlash p1 = c # d # v # seg # rest" by blast
  from splitSlash_consD [OF p1(2)] obtain p2 where p2: "p1 = c @ slash # p2"
    "splitSlash p2 = d # v # seg # rest" "slash \<notin> set c" by blast
  from splitSlash_consD [OF p2(2)] obtain p3 where p3: "p2 = d @ slash # p3"
    "splitSlash p3 = v # seg # rest" "slash \<notin> set d" by blast
  from splitSlash_consD [OF p3(2)] obtain p4 where p4: "p3 = v @ slash # p4" "slash \<notin> set v"
    by blast
  have "path = ''videos/'' @ p1" using p1(1) by (simp add: slash_def)
  then have r: "videosRoot path = Some p1" by (simp only: videosRoot_Some)
  have s1: "segment p1 = Some (c, p2)" unfolding p2(1) using assms(2) p2(3) by (rule segment_append)
  have s2: "segment p2 = Some (d, p3)" unfolding p3(1) using assms(3) p3(3) by (rule segment_append)
  have s3: "segment p3 = Some (v, p4)" unfolding p4(1) using assms(4) p4(2) by (rule segment_append)
  show ?thesis by (simp add: matchVideoDir_def r s1 s2 s3)
qed

lemma assetKey_iff: "assetKey c d p = Some (v, l, e) \<longleftrightarrow> matchAsset p = Some (c, d, v, l, e)"
  by (auto simp: assetKey_def split: option.splits)

lemma assetKey_ext:
  assumes "assetKey c d p = Some (v, l, e)"
  shows "e = ''mp4'' \<or> e = ''vtt''" and "p \<noteq> []"
    and "matchAsset p = Some (c, d, v, l, e)"
    and "endsWith p ''.mp4'' \<or> endsWith p ''.vtt''"
proof -
  from assms show m: "matchAsset p = Some (c, d, v, l, e)"
    by (auto simp: assetKey_def split: option.splits if_splits)
  from matchAsset_endsWith [OF m] show "e = ''mp4'' \<or> e = ''vtt''"
    and "endsWith p ''.mp4'' \<or> endsWith p ''.vtt''" by blast+
  from m show "p \<noteq> []" using matchAsset_nonempty by auto
qed

lemma assetKey_None_if_rejected:
  assumes "(case segmentsUnderRoot name of None \<Rightarrow> True | Some segs \<Rightarrow> length segs \<noteq> 5) \<or>
           (\<not> endsWith name ''.mp4'' \<and> \<not> endsWith name ''.vtt'') \<or>
           (case matchAsset name of None \<Rightarrow> False
            | Some (fileClinic, fileDept, rest) \<Rightarrow> fileClinic \<noteq> c \<or> fileDept \<noteq> d)"
  shows "assetKey c d name = None"
proof (rule ccontr)
  assume "assetKey c d name \<noteq> None"
  then obtain v l e where k: "assetKey c d name = Some (v, l, e)" by auto
  note m = assetKey_ext [OF k]
  from matchAsset_splitSlash [OF m(3)] obtain f where "splitSlash name = [''videos'', c, d, v, l, f]" ..
  then have "segmentsUnderRoot name = Some [c, d, v, l, f]"
    by (simp add: segmentsUnderRoot_def)
  with m(3,4) assms show False by auto
qed

lemma assetKey_None_if_slash:
  assumes "slash \<in> set c \<or> slash \<in> set d"
  shows "assetKey c d name = None"
proof (rule ccontr)
  assume "assetKey c d name \<noteq> None"
  then obtain v l e where k: "assetKey c d name = Some (v, l, e)" by auto
  from assetKey_ext(3) [OF k] have "slash \<notin> set c" "slash \<notin> set d"
    by (auto elim: matchAsset_SomeD)
  with assms show False by blast
qed

section \<open>The scan loop\<close>

lemma scanFile_None: "assetKey c d p = None \<Longrightarrow> scanFile c d vm p = vm"
  by (auto simp: scanFile_def assetKey_def split: option.splits if_splits)

lemma scanFile_Some:
  assumes "assetKey c d p = Some (v, l, e)"
  shows "scanFile c d vm p =
     AList.update v
       (AList.update l
          (setPath e p (case slot vm v l of None \<Rightarrow> \<lparr>videoPath = [], subtitlePath = []\<rparr> | Some a \<Rightarrow> a))
          (case map_of vm v of None \<Rightarrow> [] | Some m \<Rightarrow> m)) vm"
proof -
  note k = assetKey_ext [OF assms]
  have "\<not> (\<not> endsWith p ''.mp4'' \<and> \<not> endsWith p ''.vtt'')" using k(4) by blast
  then show ?thesis
    using k(3) by (auto simp: scanFile_def Let_def setPath_def slot_def split: option.splits)
qed

lemma slot_scanFile_Some:
  assumes "assetKey c d p = Some (v, l, e)"
  shows "slot (scanFile c d vm p) v' l' =
     (if v' = v \<and> l' = l
      then Some (setPath e p (case slot vm v l of None \<Rightarrow> \<lparr>videoPath = [], subtitlePath = []\<rparr> | Some a \<Rightarrow> a))
      else slot vm v' l')"
  unfolding scanFile_Some [OF assms]
  by (auto simp: slot_def update_conv' split: option.splits)

lemma keysDistinct_scanFile:
  assumes "keysDistinct vm"
  shows "keysDistinct (scanFile c d vm p)"
proof (cases "assetKey c d p")
  case None
  then show ?thesis using assms by (simp add: scanFile_None)
next
  case (Some k)
  obtain v l e where k: "k = (v, l, e)" by (cases k) auto
  let ?lm = "case map_of vm v of None \<Rightarrow> [] | Some m \<Rightarrow> m"
  have dl: "distinct (map fst ?lm)"
    using assms by (auto simp: keysDistinct_def split: option.splits dest!: map_of_SomeD)
  have "\<And>a. keysDistinct (AList.update v (AList.update l a ?lm) vm)"
  proof -
    fix a
    let ?lm' = "AList.update l a ?lm"
    have d1: "distinct (map fst (AList.update v ?lm' vm))"
      using assms by (simp add: keysDistinct_def distinct_update)
    have "\<And>v' m. (v', m) \<in> set (AList.update v ?lm' vm) \<Longrightarrow> distinct (map fst m)"
    proof -
      fix v' m assume "(v', m) \<in> set (AList.update v ?lm' vm)"
      with d1 have "map_of (AList.update v ?lm' vm) v' = Some m" by simp
      then have "(v' = v \<and> m = ?lm') \<or> map_of vm v' = Some m"
        by (auto simp: update_conv' split: if_splits)
      then show "distinct (map fst m)"
        using dl assms by (auto simp: keysDistinct_def distinct_update dest!: map_of_SomeD)
    qed
    with d1 show "keysDistinct (AList.update v ?lm' vm)"
      by (auto simp: keysDistinct_def)
  qed
  then show ?thesis using Some k by (simp add: scanFile_Some)
qed

lemma scanFiles_snoc: "scanFiles c d (xs @ [x]) = scanFile c d (scanFiles c d xs) x"
  by (simp add: scanFiles_def)

lemma keysDistinct_scanFiles: "keysDistinct (scanFiles c d files)"
proof (induction files rule: rev_induct)
  case Nil
  show ?case by (simp add: scanFiles_def keysDistinct_def)
next
  case (snoc x xs)
  then show ?case by (simp add: scanFiles_snoc keysDistinct_scanFile)
qed

lemma okAsset_mono: "okAsset c d S v l a \<Longrightarrow> S \<subseteq> T \<Longrightarrow> okAsset c d T v l a"
  by (auto simp: okAsset_def)

lemma okAsset_setPath:
  assumes "assetKey c d p = Some (v, l, e)" and "p \<in> S"
    and "a = \<lparr>videoPath = [], subtitlePath = []\<rparr> \<or> okAsset c d S v l a"
  shows "okAsset c d S v l (setPath e p a)"
proof -
  note k = assetKey_ext [OF assms(1)]
  from k(1) show ?thesis
  proof
    assume "e = ''mp4''"
    then show ?thesis using assms k(2) by (auto simp: okAsset_def setPath_def)
  next
    assume "e = ''vtt''"
    then show ?thesis using assms k(2) by (auto simp: okAsset_def setPath_def)
  qed
qed

lemma okAsset_scanFiles:
  "slot (scanFiles c d files) v l = Some a \<Longrightarrow> okAsset c d (set files) v l a"
proof (induction files arbitrary: v l a rule: rev_induct)
  case Nil
  then show ?case by (simp add: scanFiles_def slot_def)
next
  case (snoc x xs)
  show ?case
  proof (cases "assetKey c d x")
    case None
    with snoc.prems have "slot (scanFiles c d xs) v l = Some a"
      by (simp add: scanFiles_snoc scanFile_None)
    then have "okAsset c d (set xs) v l a" by (rule snoc.IH)
    then show ?thesis by (rule okAsset_mono) auto
  next
    case (Some k)
    obtain v0 l0 e0 where k: "assetKey c d x = Some (v0, l0, e0)"
      using Some by (cases k) auto
    show ?thesis
    proof (cases "v = v0 \<and> l = l0")
      case False
      with snoc.prems have "slot (scanFiles c d xs) v l = Some a"
        by (auto simp: scanFiles_snoc slot_scanFile_Some [OF k] split: if_splits)
      then have "okAsset c d (set xs) v l a" by (rule snoc.IH)
      then show ?thesis by (rule okAsset_mono) auto
    next
      case True
      let ?old = "case slot (scanFiles c d xs) v0 l0 of
                    None \<Rightarrow> \<lparr>videoPath = [], subtitlePath = []\<rparr> | Some a \<Rightarrow> a"
      from True snoc.prems have a: "a = setPath e0 x ?old"
        by (simp add: scanFiles_snoc slot_scanFile_Some [OF k])
      have "?old = \<lparr>videoPath = [], subtitlePath = []\<rparr> \<or> okAsset c d (set (xs @ [x])) v0 l0 ?old"
      proof (cases "slot (scanFiles c d xs) v0 l0")
        case None
        then show ?thesis by simp
      next
        case (Some b)
        then have "okAsset c d (set xs) v0 l0 b" by (rule snoc.IH)
        then have "okAsset c d (set (xs @ [x])) v0 l0 b" by (rule okAsset_mono) auto
        with Some show ?thesis by simp
      qed
      then have "okAsset c d (set (xs @ [x])) v0 l0 (setPath e0 x ?old)"
        by (intro okAsset_setPath [OF k]) auto
      with a True show ?thesis by simp
    qed
  qed
qed

lemma pathField_setPath_same: "pathField e (setPath e p a) = p"
  by (simp add: pathField_def setPath_def)

lemma pathField_setPath_other:
  "e \<noteq> e' \<Longrightarrow> e = ''mp4'' \<or> e = ''vtt'' \<Longrightarrow> e' = ''mp4'' \<or> e' = ''vtt'' \<Longrightarrow>
   pathField e (setPath e' p a) = pathField e a"
  by (auto simp: pathField_def setPath_def)

lemma last_write_wins_slot:
  assumes "assetKey c d p = Some (v, l, e)"
    and "\<forall>x \<in> set post. assetKey c d x \<noteq> Some (v, l, e)"
  shows "\<exists>a. slot (scanFiles c d (pre @ p # post)) v l = Some a \<and> pathField e a = p"
  using assms(2)
proof (induction post rule: rev_induct)
  case Nil
  have "scanFiles c d (pre @ [p]) = scanFile c d (scanFiles c d pre) p"
    by (rule scanFiles_snoc)
  then show ?case
    by (simp add: slot_scanFile_Some [OF assms(1)] pathField_setPath_same)
next
  case (snoc x xs)
  then obtain a where a: "slot (scanFiles c d (pre @ p # xs)) v l = Some a" "pathField e a = p"
    by auto
  have step: "scanFiles c d (pre @ p # xs @ [x]) = scanFile c d (scanFiles c d (pre @ p # xs)) x"
    using scanFiles_snoc [of c d "pre @ p # xs" x] by simp
  show ?case
  proof (cases "assetKey c d x")
    case None
    then show ?thesis using a step by (simp add: scanFile_None)
  next
    case (Some k)
    obtain v0 l0 e0 where k: "assetKey c d x = Some (v0, l0, e0)"
      using Some by (cases k) auto
    show ?thesis
    proof (cases "v0 = v \<and> l0 = l")
      case False
      then show ?thesis using a step by (auto simp: slot_scanFile_Some [OF k])
    next
      case True
      with k snoc.prems have ne: "e \<noteq> e0" by auto
      have "pathField e (setPath e0 x a) = pathField e a"
        using ne assetKey_ext(1) [OF assms(1)] assetKey_ext(1) [OF k]
        by (rule pathField_setPath_other)
      then show ?thesis using a step True by (simp add: slot_scanFile_Some [OF k])
    qed
  qed
qed

lemma scanFiles_drop:
  assumes "assetKey c d name = None"
  shows "scanFiles c d (pre @ name # post) = scanFiles c d (pre @ post)"
  by (simp add: scanFiles_def scanFile_None [OF assms])

lemma scanFiles_all_None:
  "(\<And>x. x \<in> set files \<Longrightarrow> assetKey c d x = None) \<Longrightarrow> scanFiles c d files = []"
proof (induction files rule: rev_induct)
  case Nil
  show ?case by (simp add: scanFiles_def)
next
  case (snoc x xs)
  then show ?case by (simp add: scanFiles_snoc scanFile_None)
qed

lemma slot_iff:
  assumes "keysDistinct vm"
  shows "slot vm v l = Some a \<longleftrightarrow> (\<exists>lm. (v, lm) \<in> set vm \<and> (l, a) \<in> set lm)"
proof
  assume "slot vm v l = Some a"
  then obtain lm where "map_of vm v = Some lm" "map_of lm l = Some a"
    by (auto simp: slot_def split: option.splits)
  then show "\<exists>lm. (v, lm) \<in> set vm \<and> (l, a) \<in> set lm"
    by (auto dest: map_of_SomeD)
next
  assume "\<exists>lm. (v, lm) \<in> set vm \<and> (l, a) \<in> set lm"
  then obtain lm where m: "(v, lm) \<in> set vm" "(l, a) \<in> set lm" by blast
  from assms m(1) have "distinct (map fst lm)" and "map_of vm v = Some lm"
    by (auto simp: keysDistinct_def)
  with m(2) show "slot vm v l = Some a" by (simp add: slot_def)
qed

section \<open>The languages object and the assembled bundle\<close>

lemma insertIndex_map_of:
  "k \<notin> fst ` set ps \<Longrightarrow> map_of (insertIndex n k v ps) = (map_of ps)(k \<mapsto> v)"
proof (induction ps)
  case Nil
  show ?case by simp
next
  case (Cons p ps)
  then have ne: "fst p \<noteq> k" and IH: "map_of (insertIndex n k v ps) = (map_of ps)(k \<mapsto> v)"
    by auto
  obtain k' v' where p: "p = (k', v')" by (cases p)
  show ?case
    using ne IH p by (auto simp: fun_upd_twist split: option.splits)
qed

lemma insertIndex_keys: "fst ` set (insertIndex n k v ps) = insert k (fst ` set ps)"
  by (induction ps) (auto split: option.splits)

lemma insertIndex_distinct:
  "k \<notin> fst ` set ps \<Longrightarrow> distinct (map fst ps) \<Longrightarrow> distinct (map fst (insertIndex n k v ps))"
proof (induction ps)
  case Nil
  show ?case by simp
next
  case (Cons p ps)
  then have IH: "distinct (map fst (insertIndex n k v ps))" and ne: "fst p \<noteq> k"
    and np: "fst p \<notin> fst ` set ps" and d: "distinct (map fst ps)" and nk: "k \<notin> fst ` set ps"
    by auto
  have "fst p \<notin> fst ` set (insertIndex n k v ps)"
    using np ne by (simp add: insertIndex_keys)
  then show ?case
    using IH ne np d nk by (auto split: option.splits)
qed

lemma objSet_distinct:
  "distinct (map fst obj) \<Longrightarrow> distinct (map fst (objSet obj k v))"
  by (auto simp: objSet_def distinct_update insertIndex_distinct split: option.splits)

lemma objSet_map_of:
  "map_of (objSet obj k v) = (if k = ''__proto__'' then map_of obj else (map_of obj)(k \<mapsto> v))"
proof (cases "k = ''__proto__''")
  case True
  then show ?thesis by (simp add: objSet_def)
next
  case False
  show ?thesis
  proof (cases "k \<in> fst ` set obj")
    case True
    with False show ?thesis by (simp add: objSet_def update_conv')
  next
    case nk: False
    show ?thesis
    proof (cases "arrayIndex k")
      case None
      from nk have "map_of obj k = None" by (simp add: map_of_eq_None_iff)
      then have "map_of (obj @ [(k, v)]) = (map_of obj)(k \<mapsto> v)"
        by (auto simp: fun_eq_iff map_add_def split: option.splits)
      with None False nk show ?thesis by (simp add: objSet_def)
    next
      case (Some n)
      with False nk show ?thesis by (simp add: objSet_def insertIndex_map_of)
    qed
  qed
qed

lemma languagesOf_snoc: "languagesOf (xs @ [(l, a)]) = objSet (languagesOf xs) l a"
  unfolding languagesOf_def by (cases a) simp

lemma languagesOf_distinct: "distinct (map fst (languagesOf lm))"
proof (induction lm rule: rev_induct)
  case Nil
  show ?case by (simp add: languagesOf_def)
next
  case (snoc x xs)
  obtain l a where "x = (l, a)" by (cases x)
  with snoc show ?case by (simp add: languagesOf_snoc objSet_distinct)
qed

lemma languagesOf_map_of:
  "distinct (map fst lm) \<Longrightarrow>
   map_of (languagesOf lm) l' = (if l' = ''__proto__'' then None else map_of lm l')"
proof (induction lm rule: rev_induct)
  case Nil
  show ?case by (simp add: languagesOf_def)
next
  case (snoc x xs)
  obtain l a where x: "x = (l, a)" by (cases x)
  from snoc.prems x have d: "distinct (map fst xs)" and nl: "l \<notin> fst ` set xs" by auto
  from nl have none: "map_of xs l = None" by (simp add: map_of_eq_None_iff)
  have IH: "map_of (languagesOf xs) l' = (if l' = ''__proto__'' then None else map_of xs l')"
    using d by (rule snoc.IH)
  show ?case
    using IH none unfolding x languagesOf_snoc objSet_map_of
    by (auto simp: map_add_def split: option.splits)
qed

lemma languagesOf_entry:
  assumes "distinct (map fst lm)"
  shows "(l, a) \<in> set (languagesOf lm) \<longleftrightarrow> l \<noteq> ''__proto__'' \<and> (l, a) \<in> set lm"
proof -
  have "(l, a) \<in> set (languagesOf lm) \<longleftrightarrow> map_of (languagesOf lm) l = Some a"
    using languagesOf_distinct [of lm] by simp
  also have "\<dots> \<longleftrightarrow> l \<noteq> ''__proto__'' \<and> map_of lm l = Some a"
    by (simp add: languagesOf_map_of [OF assms])
  also have "\<dots> \<longleftrightarrow> l \<noteq> ''__proto__'' \<and> (l, a) \<in> set lm"
    using assms by simp
  finally show ?thesis .
qed

lemma count_concat_distinct:
  assumes "distinct (map fst xs)" and "(k, a) \<in> set xs"
    and "\<And>k' a'. (k', a') \<in> set xs \<Longrightarrow> k' \<noteq> k \<Longrightarrow> x \<notin> set (f (k', a'))"
  shows "count_list (concat (map f xs)) x = count_list (f (k, a)) x"
  using assms
proof (induction xs)
  case Nil
  then show ?case by simp
next
  case (Cons y ys)
  obtain k0 a0 where y: "y = (k0, a0)" by (cases y)
  show ?case
  proof (cases "k0 = k")
    case True
    with Cons.prems(1,2) y have ya: "y = (k, a)" and nk: "k \<notin> fst ` set ys"
      by (auto simp: image_iff)
    have "\<And>z. z \<in> set ys \<Longrightarrow> x \<notin> set (f z)"
    proof -
      fix z assume z: "z \<in> set ys"
      obtain k' a' where z': "z = (k', a')" by (cases z)
      with z nk have "k' \<noteq> k" by (auto simp: image_iff)
      with Cons.prems(3) [of k' a'] z z' show "x \<notin> set (f z)" by simp
    qed
    then have "x \<notin> set (concat (map f ys))" by auto
    then have "count_list (concat (map f ys)) x = 0" by simp
    with ya show ?thesis by simp
  next
    case False
    with Cons.prems(2) y have mem: "(k, a) \<in> set ys" by auto
    have "x \<notin> set (f y)" using Cons.prems(3) [of k0 a0] y False by simp
    then have z: "count_list (f y) x = 0" by simp
    have "count_list (concat (map f ys)) x = count_list (f (k, a)) x"
      using Cons.prems(1) mem Cons.prems(3) by (intro Cons.IH) auto
    with z show ?thesis by simp
  qed
qed

lemma bundlePaths_buildBundle:
  "bundlePaths (buildBundle c d files) =
     concat (map (\<lambda>(v, lm). concat (map (\<lambda>(l, a). assetPaths a) (languagesOf lm)))
               (scanFiles c d files))"
  by (simp add: bundlePaths_def buildBundle_def videosOf_def comp_def case_prod_unfold)

lemma bundle_entry_iff:
  "(\<exists>ve \<in> set (videos (buildBundle c d files)). id' ve = v \<and> (l, a) \<in> set (languages ve))
     \<longleftrightarrow> l \<noteq> ''__proto__'' \<and> slot (scanFiles c d files) v l = Some a"
proof -
  let ?vm = "scanFiles c d files"
  have kd: "keysDistinct ?vm" by (rule keysDistinct_scanFiles)
  have "(\<exists>ve \<in> set (videos (buildBundle c d files)). id' ve = v \<and> (l, a) \<in> set (languages ve))
          \<longleftrightarrow> (\<exists>lm. (v, lm) \<in> set ?vm \<and> (l, a) \<in> set (languagesOf lm))"
    by (force simp: buildBundle_def videosOf_def image_iff)
  also have "\<dots> \<longleftrightarrow> (\<exists>lm. (v, lm) \<in> set ?vm \<and> l \<noteq> ''__proto__'' \<and> (l, a) \<in> set lm)"
  proof -
    have "\<And>lm. (v, lm) \<in> set ?vm \<Longrightarrow>
            (l, a) \<in> set (languagesOf lm) \<longleftrightarrow> l \<noteq> ''__proto__'' \<and> (l, a) \<in> set lm"
      using kd by (intro languagesOf_entry) (auto simp: keysDistinct_def)
    then show ?thesis by blast
  qed
  also have "\<dots> \<longleftrightarrow> l \<noteq> ''__proto__'' \<and> slot ?vm v l = Some a"
    unfolding slot_iff [OF kd] by blast
  finally show ?thesis .
qed

lemma bundle_entry_ok:
  assumes "ve \<in> set (videos (buildBundle c d files))" and "(l, a) \<in> set (languages ve)"
  shows "okAsset c d (set files) (id' ve) l a"
proof -
  from assms have "\<exists>ve' \<in> set (videos (buildBundle c d files)).
      id' ve' = id' ve \<and> (l, a) \<in> set (languages ve')" by blast
  then have "slot (scanFiles c d files) (id' ve) l = Some a"
    unfolding bundle_entry_iff by simp
  then show ?thesis by (rule okAsset_scanFiles)
qed

lemma bundlePaths_mem:
  "q \<in> set (bundlePaths b) \<longleftrightarrow>
     (\<exists>ve \<in> set (videos b). \<exists>(l, a) \<in> set (languages ve). q = videoPath a \<or> q = subtitlePath a)"
  by (auto simp: bundlePaths_def assetPaths_def)

lemma bundlePaths_key:
  assumes "q \<in> set (bundlePaths (buildBundle c d files))" and "q \<noteq> []"
  shows "q \<in> set files \<and> (\<exists>k. assetKey c d q = Some k)"
proof -
  from assms(1) obtain ve l a where ve: "ve \<in> set (videos (buildBundle c d files))"
    and la: "(l, a) \<in> set (languages ve)" and q: "q = videoPath a \<or> q = subtitlePath a"
    unfolding bundlePaths_mem by auto
  have "okAsset c d (set files) (id' ve) l a" using ve la by (rule bundle_entry_ok)
  with q assms(2) show ?thesis by (auto simp: okAsset_def)
qed

lemma count_assetPaths:
  assumes "okAsset c d S v l a" and "pathField e a = p" and "assetKey c d p = Some (v, l, e)"
  shows "count_list (assetPaths a) p = 1"
proof -
  note k = assetKey_ext [OF assms(3)]
  from k(1) show ?thesis
  proof
    assume e: "e = ''mp4''"
    with assms(2) have vp: "videoPath a = p" by (simp add: pathField_def)
    have "subtitlePath a \<noteq> p"
      using assms(1,3) e k(2) by (auto simp: okAsset_def)
    with vp show ?thesis by (simp add: assetPaths_def)
  next
    assume e: "e = ''vtt''"
    with assms(2) have sp: "subtitlePath a = p" by (simp add: pathField_def)
    have "videoPath a \<noteq> p"
      using assms(1,3) e k(2) by (auto simp: okAsset_def)
    with sp show ?thesis by (simp add: assetPaths_def)
  qed
qed

lemma assetPaths_key:
  assumes "okAsset c d S v' l' a'" and "p \<in> set (assetPaths a')" and "assetKey c d p = Some (v, l, e)"
  shows "v' = v \<and> l' = l"
  using assms assetKey_ext(2) [OF assms(3)] by (auto simp: okAsset_def assetPaths_def)

lemma count_bundlePaths_last:
  assumes k: "assetKey c d p = Some (v, l, e)" and np: "l \<noteq> ''__proto__''"
    and post: "\<forall>x \<in> set post. assetKey c d x \<noteq> Some (v, l, e)"
  shows "count_list (bundlePaths (buildBundle c d (pre @ p # post))) p = 1"
proof -
  let ?files = "pre @ p # post"
  let ?vm = "scanFiles c d ?files"
  let ?G = "\<lambda>(l, a). assetPaths a"
  let ?F = "\<lambda>(v, lm). concat (map ?G (languagesOf lm))"
  have kd: "keysDistinct ?vm" by (rule keysDistinct_scanFiles)
  from last_write_wins_slot [OF k post, of pre]
  obtain a where a: "slot ?vm v l = Some a" "pathField e a = p" by blast
  then obtain lm where lm: "(v, lm) \<in> set ?vm" "(l, a) \<in> set lm"
    unfolding slot_iff [OF kd] by blast
  have dlm: "\<And>v' lm'. (v', lm') \<in> set ?vm \<Longrightarrow> distinct (map fst lm')"
    using kd by (auto simp: keysDistinct_def)
  have ok: "\<And>v' lm' l' a'. (v', lm') \<in> set ?vm \<Longrightarrow> (l', a') \<in> set (languagesOf lm')
              \<Longrightarrow> okAsset c d (set ?files) v' l' a'"
  proof -
    fix v' lm' l' a'
    assume m: "(v', lm') \<in> set ?vm" "(l', a') \<in> set (languagesOf lm')"
    then have "(l', a') \<in> set lm'" using languagesOf_entry [OF dlm] by blast
    with m(1) have "slot ?vm v' l' = Some a'" unfolding slot_iff [OF kd] by blast
    then show "okAsset c d (set ?files) v' l' a'" by (rule okAsset_scanFiles)
  qed
  have outer: "count_list (concat (map ?F ?vm)) p = count_list (?F (v, lm)) p"
  proof (rule count_concat_distinct [OF _ lm(1)])
    show "distinct (map fst ?vm)" using kd by (simp add: keysDistinct_def)
  next
    fix v' lm' assume m: "(v', lm') \<in> set ?vm" and ne: "v' \<noteq> v"
    show "p \<notin> set (?F (v', lm'))"
    proof
      assume "p \<in> set (?F (v', lm'))"
      then obtain l' a' where la: "(l', a') \<in> set (languagesOf lm')" and pa: "p \<in> set (assetPaths a')"
        by auto
      from assetPaths_key [OF ok [OF m la] pa k] ne show False by simp
    qed
  qed
  have la: "(l, a) \<in> set (languagesOf lm)"
    using languagesOf_entry [OF dlm [OF lm(1)]] lm(2) np by blast
  have inner: "count_list (concat (map ?G (languagesOf lm))) p = count_list (?G (l, a)) p"
  proof (rule count_concat_distinct [OF languagesOf_distinct la])
    fix l' a' assume m: "(l', a') \<in> set (languagesOf lm)" and ne: "l' \<noteq> l"
    show "p \<notin> set (?G (l', a'))"
    proof
      assume "p \<in> set (?G (l', a'))"
      then have "p \<in> set (assetPaths a')" by simp
      from assetPaths_key [OF ok [OF lm(1) m] this k] ne show False by simp
    qed
  qed
  have "count_list (assetPaths a) p = 1"
    using ok [OF lm(1) la] a(2) k by (rule count_assetPaths)
  with outer inner show ?thesis
    by (simp add: bundlePaths_buildBundle)
qed

text \<open>The Bundle Builder on the bucket, case by case.\<close>

lemma bundlePath_not_under_videos: "\<not> startsWith (bundlePathOf c d) (videosPrefix c' d')"
  by (simp add: startsWith_def bundlePathOf_def videosPrefix_def)

lemma listed_update:
  assumes "\<not> startsWith path prefix"
  shows "listed prefix (bucket\<lparr>objects := AList.update path obj (objects bucket), writes := w\<rparr>)
           = listed prefix bucket"
  using assms by (simp add: listed_def update_keys)

lemma generateBundleLogic_cases:
  "generateBundleLogic env c d bucket =
     (if listFails env (videosPrefix c d) then (Inl (ListFailed (videosPrefix c d)), bucket)
      else if saveFails env (bundlePathOf c d) then (Inl (SaveFailed (bundlePathOf c d)), bucket)
      else (Inr (bundlePathOf c d),
            bucket\<lparr>objects := AList.update (bundlePathOf c d)
                                 (snapshot (buildBundle c d (listed (videosPrefix c d) bucket)))
                                 (objects bucket),
                   writes := writes bucket @ [bundlePathOf c d]\<rparr>))"
  by (simp add: generateBundleLogic_def getFiles_def save_def Let_def)

text \<open>
  The snapshot of a namespace without assets (the serialisation of the empty bundle),
  line by line.
\<close>

lemma empty_bundle_json:
  "JSON_stringify \<lparr>version = ''1.0'', clinic = ''c1'', department = ''d1'', videos = []\<rparr>
     = ''{'' @ [CHR 0x0A] @
       ''  '' @ [CHR 0x22] @ ''version'' @ [CHR 0x22] @ '': '' @ [CHR 0x22] @ ''1.0'' @ [CHR 0x22] @ '','' @ [CHR 0x0A] @
       ''  '' @ [CHR 0x22] @ ''clinic'' @ [CHR 0x22] @ '': '' @ [CHR 0x22] @ ''c1'' @ [CHR 0x22] @ '','' @ [CHR 0x0A] @
       ''  '' @ [CHR 0x22] @ ''department'' @ [CHR 0x22] @ '': '' @ [CHR 0x22] @ ''d1'' @ [CHR 0x22] @ '','' @ [CHR 0x0A] @
       ''  '' @ [CHR 0x22] @ ''videos'' @ [CHR 0x22] @ '': []'' @ [CHR 0x0A] @
       ''}''"
  by (simp add: JSON_stringify_def bundleJson_def quoteJSON_def quoteChar_def)

text \<open>Unfolding sets for evaluating the definitions on concrete names.\<close>

lemmas match_eval = matchAsset_def videosRoot_def startsWith_def segment_def fileExt_def
  endsWith_def slash_def

lemmas bundle_eval = scanFile_def scanFiles_def buildBundle_def videosOf_def languagesOf_def
  objSet_def arrayIndex_def digitVal_def Let_def

lemmas storage_eval = getFiles_def save_def listed_def startsWith_def langFolderPathOf_def
  placeholderPathOf_def marker_def videosPrefix_def bundlePathOf_def Let_def

section \<open>Properties of the Bundle Builder\<close>

text \<open>
  Claim C4 (grammar rejection).  A name with other than five segments under the
  \<open>videos\<close> root, or ending in neither \<open>.mp4\<close> nor \<open>.vtt\<close>, or whose matched
  clinic or department differs from the arguments, contributes nothing: the bundle is
  the one built from the listing without it, and the name is no \<open>videoPath\<close> or
  \<open>subtitlePath\<close> value of any bundle built for the namespace.  (The empty string is
  the value of an absent path and is not an object name, hence \<open>name \<noteq> []\<close>.)
\<close>

theorem grammar_rejection:
  assumes "(case segmentsUnderRoot name of None \<Rightarrow> True | Some segs \<Rightarrow> length segs \<noteq> 5) \<or>
           (\<not> endsWith name ''.mp4'' \<and> \<not> endsWith name ''.vtt'') \<or>
           (case matchAsset name of None \<Rightarrow> False
            | Some (fileClinic, fileDept, rest) \<Rightarrow>
                fileClinic \<noteq> clinicArg \<or> fileDept \<noteq> departmentArg)"
  shows "buildBundle clinicArg departmentArg (pre @ name # post)
           = buildBundle clinicArg departmentArg (pre @ post) \<and>
         (name \<noteq> [] \<longrightarrow> name \<notin> set (bundlePaths (buildBundle clinicArg departmentArg files)))"
proof -
  have k: "assetKey clinicArg departmentArg name = None"
    using assms by (rule assetKey_None_if_rejected)
  have "buildBundle clinicArg departmentArg (pre @ name # post)
          = buildBundle clinicArg departmentArg (pre @ post)"
    by (simp add: buildBundle_def scanFiles_drop [OF k])
  moreover have "name \<noteq> [] \<longrightarrow> name \<notin> set (bundlePaths (buildBundle clinicArg departmentArg files))"
    using bundlePaths_key [of name clinicArg departmentArg files] k by auto
  ultimately show ?thesis by blast
qed

theorem grammar_rejection_witness:
  "buildBundle ''c1'' ''d1''
     ([''videos/c1/d1/v1/en/a.mp4''] @ ''videos/c1/d1/v1/en/.placeholder''
        # [''videos/c1/d1/v1/en/a.vtt''])
     = buildBundle ''c1'' ''d1'' ([''videos/c1/d1/v1/en/a.mp4''] @ [''videos/c1/d1/v1/en/a.vtt'']) \<and>
   ''videos/c1/d1/v1/en/.placeholder''
     \<notin> set (bundlePaths (buildBundle ''c1'' ''d1''
          [''videos/c1/d1/v1/en/a.mp4'', ''videos/c1/d1/v1/en/.placeholder'',
           ''videos/c1/d1/v1/en/a.vtt'']))"
proof -
  have h: "\<not> endsWith ''videos/c1/d1/v1/en/.placeholder'' ''.mp4'' \<and>
           \<not> endsWith ''videos/c1/d1/v1/en/.placeholder'' ''.vtt''"
    by (simp add: endsWith_def)
  from grammar_rejection [of "''videos/c1/d1/v1/en/.placeholder''" "''c1''" "''d1''"
      "[''videos/c1/d1/v1/en/a.mp4'']" "[''videos/c1/d1/v1/en/a.vtt'']"
      "[''videos/c1/d1/v1/en/a.mp4'', ''videos/c1/d1/v1/en/.placeholder'',
        ''videos/c1/d1/v1/en/a.vtt'']"] h
  have "buildBundle ''c1'' ''d1''
     ([''videos/c1/d1/v1/en/a.mp4''] @ ''videos/c1/d1/v1/en/.placeholder''
        # [''videos/c1/d1/v1/en/a.vtt''])
     = buildBundle ''c1'' ''d1'' ([''videos/c1/d1/v1/en/a.mp4''] @ [''videos/c1/d1/v1/en/a.vtt'']) \<and>
   (''videos/c1/d1/v1/en/.placeholder'' \<noteq> [] \<longrightarrow>
    ''videos/c1/d1/v1/en/.placeholder''
     \<notin> set (bundlePaths (buildBundle ''c1'' ''d1''
          [''videos/c1/d1/v1/en/a.mp4'', ''videos/c1/d1/v1/en/.placeholder'',
           ''videos/c1/d1/v1/en/a.vtt''])))"
    by blast
  moreover have "''videos/c1/d1/v1/en/.placeholder'' \<noteq> []" by simp
  ultimately show ?thesis by blast
qed

text \<open>
  Claim C5 (no empty language entry).  In every bundle that is built, every language
  entry of every video has a non-empty \<open>videoPath\<close> or a non-empty
  \<open>subtitlePath\<close>.
\<close>

theorem language_entry_has_path:
  "\<forall>ve \<in> set (videos (buildBundle clinicArg departmentArg files)).
     \<forall>(lang, a) \<in> set (languages ve). videoPath a \<noteq> [] \<or> subtitlePath a \<noteq> []"
proof (intro ballI, clarify)
  fix ve lang a
  assume "ve \<in> set (videos (buildBundle clinicArg departmentArg files))"
    and "(lang, a) \<in> set (languages ve)" and "subtitlePath a = []" and "videoPath a = []"
  then show False
    using bundle_entry_ok [of ve clinicArg departmentArg files lang a] by (simp add: okAsset_def)
qed

theorem language_entry_has_path_witness:
  "videos (buildBundle ''c1'' ''d1'' exampleListing)
     = [\<lparr>id' = ''v1'', title = ''v1'',
         languages =
           [(''en'', \<lparr>videoPath = ''videos/c1/d1/v1/en/a.mp4'',
                      subtitlePath = ''videos/c1/d1/v1/en/a.vtt''\<rparr>),
            (''fr'', \<lparr>videoPath = ''videos/c1/d1/v1/fr/b.mp4'', subtitlePath = []\<rparr>)]\<rparr>] \<and>
   list_all (\<lambda>ve. list_all (\<lambda>(lang, a). videoPath a \<noteq> [] \<or> subtitlePath a \<noteq> []) (languages ve))
     (videos (buildBundle ''c1'' ''d1'' exampleListing))"
proof -
  have "videos (buildBundle ''c1'' ''d1'' exampleListing)
     = [\<lparr>id' = ''v1'', title = ''v1'',
         languages =
           [(''en'', \<lparr>videoPath = ''videos/c1/d1/v1/en/a.mp4'',
                      subtitlePath = ''videos/c1/d1/v1/en/a.vtt''\<rparr>),
            (''fr'', \<lparr>videoPath = ''videos/c1/d1/v1/fr/b.mp4'', subtitlePath = []\<rparr>)]\<rparr>]"
    by (simp add: exampleListing_def match_eval bundle_eval)
  moreover from language_entry_has_path [of "''c1''" "''d1''" exampleListing]
  have "list_all (\<lambda>ve. list_all (\<lambda>(lang, a). videoPath a \<noteq> [] \<or> subtitlePath a \<noteq> []) (languages ve))
     (videos (buildBundle ''c1'' ''d1'' exampleListing))"
    unfolding list_all_iff .
  ultimately show ?thesis by blast
qed

text \<open>
  Last write wins, for every language code but \<open>__proto__\<close>: the entry of the video
  and language of a matching name holds, in the field of its extension, the last
  listed name with that video, language and extension.
\<close>

lemma last_write_wins:
  assumes "matchAsset name = Some (clinicArg, departmentArg, videoId, lang, ext)"
    and "lang \<noteq> ''__proto__''"
    and "\<forall>x \<in> set post. matchAsset x \<noteq> Some (clinicArg, departmentArg, videoId, lang, ext)"
  shows "\<exists>ve \<in> set (videos (buildBundle clinicArg departmentArg (pre @ name # post))).
           id' ve = videoId \<and> (\<exists>a. (lang, a) \<in> set (languages ve) \<and> pathField ext a = name)"
proof -
  from last_write_wins_slot [of clinicArg departmentArg name videoId lang ext post pre] assms
  obtain a where a: "slot (scanFiles clinicArg departmentArg (pre @ name # post)) videoId lang = Some a"
    "pathField ext a = name"
    by (auto simp: assetKey_iff)
  with assms(2) have "\<exists>ve \<in> set (videos (buildBundle clinicArg departmentArg (pre @ name # post))).
      id' ve = videoId \<and> (lang, a) \<in> set (languages ve)"
    unfolding bundle_entry_iff by simp
  with a(2) show ?thesis by blast
qed

text \<open>
  Claim C3 (last write wins), at a listing on which the code departs from it.  Two
  uploads \<open>old.mp4\<close> and \<open>new.mp4\<close> for video \<open>v1\<close> in a language folder named
  \<open>__proto__\<close> both match the pattern, and the scan records \<open>new.mp4\<close> for them.
  The assignment \<^verbatim>\<open>languages[lang] = {...}\<close> that copies the entry into the
  bundle then replaces the prototype of \<open>languages\<close> instead of adding a property:
  the bundle has the video with no language entry at all, so no \<open>videoPath\<close> equals
  the last name.
\<close>

theorem proto_language_is_lost:
  "matchAsset ''videos/c1/d1/v1/__proto__/old.mp4''
     = Some (''c1'', ''d1'', ''v1'', ''__proto__'', ''mp4'') \<and>
   matchAsset ''videos/c1/d1/v1/__proto__/new.mp4''
     = Some (''c1'', ''d1'', ''v1'', ''__proto__'', ''mp4'') \<and>
   buildBundle ''c1'' ''d1''
     [''videos/c1/d1/v1/__proto__/old.mp4'', ''videos/c1/d1/v1/__proto__/new.mp4'']
     = \<lparr>version = ''1.0'', clinic = ''c1'', department = ''d1'',
        videos = [\<lparr>id' = ''v1'', title = ''v1'', languages = []\<rparr>]\<rparr>"
  by (simp add: match_eval bundle_eval)

text \<open>
  Claim C2 (completeness), as the code has it.  A listed name that matches the pattern
  for the namespace, whose language segment is not \<open>__proto__\<close>, and after which the
  listing holds no further name with the same video, language and extension, occurs
  exactly once among the \<open>videoPath\<close> and \<open>subtitlePath\<close> values of the bundle.
\<close>

theorem completeness_of_last_occurrence:
  assumes "matchAsset name = Some (clinicArg, departmentArg, videoId, lang, ext)"
    and "lang \<noteq> ''__proto__''"
    and "\<forall>x \<in> set post. matchAsset x \<noteq> Some (clinicArg, departmentArg, videoId, lang, ext)"
  shows "count_list (bundlePaths (buildBundle clinicArg departmentArg (pre @ name # post))) name = 1"
  using assms by (intro count_bundlePaths_last [of _ _ _ videoId lang ext]) (simp_all add: assetKey_iff)

theorem completeness_of_last_occurrence_witness:
  "count_list
     (bundlePaths (buildBundle ''c1'' ''d1''
        [''videos/c1/d1/v1/en/old.mp4'', ''videos/c1/d1/v1/en/new.mp4'', ''videos/c1/d1/v1/en/a.vtt'']))
     ''videos/c1/d1/v1/en/new.mp4'' = 1"
proof -
  have m: "matchAsset ''videos/c1/d1/v1/en/new.mp4'' = Some (''c1'', ''d1'', ''v1'', ''en'', ''mp4'')"
    by (simp add: match_eval)
  have n: "''en'' \<noteq> ''__proto__''" by simp
  have p: "\<forall>x \<in> set [''videos/c1/d1/v1/en/a.vtt''].
             matchAsset x \<noteq> Some (''c1'', ''d1'', ''v1'', ''en'', ''mp4'')"
    by (simp add: match_eval)
  from completeness_of_last_occurrence [OF m n p, of "[''videos/c1/d1/v1/en/old.mp4'']"]
  show ?thesis by simp
qed

text \<open>
  The claim as it was stated, for every matching name, fails on a re-upload:
  \<open>old.mp4\<close> matches and is listed, but it is overwritten by \<open>new.mp4\<close> and is no
  path value of the bundle.
\<close>

theorem completeness_counterexample:
  "matchAsset ''videos/c1/d1/v1/en/old.mp4'' = Some (''c1'', ''d1'', ''v1'', ''en'', ''mp4'') \<and>
   ''videos/c1/d1/v1/en/old.mp4''
     \<in> set [''videos/c1/d1/v1/en/old.mp4'', ''videos/c1/d1/v1/en/new.mp4''] \<and>
   count_list
     (bundlePaths (buildBundle ''c1'' ''d1''
        [''videos/c1/d1/v1/en/old.mp4'', ''videos/c1/d1/v1/en/new.mp4'']))
     ''videos/c1/d1/v1/en/old.mp4'' = 0"
  by (simp add: match_eval bundle_eval bundlePaths_def assetPaths_def)

text \<open>
  Claim C10 (a \<open>/\<close> in the namespace).  When the clinic or the department argument
  contains a \<open>/\<close>, the bundle built from any listing has no videos, and unless the
  service rejects the listing or the write, exactly that bundle is written to the
  snapshot location.
\<close>

theorem slash_in_namespace_empty_bundle:
  assumes "slash \<in> set clinicArg \<or> slash \<in> set departmentArg"
  shows "buildBundle clinicArg departmentArg files
           = \<lparr>version = ''1.0'', clinic = clinicArg, department = departmentArg, videos = []\<rparr> \<and>
         (\<not> listFails env (videosPrefix clinicArg departmentArg) \<and>
          \<not> saveFails env (bundlePathOf clinicArg departmentArg) \<longrightarrow>
          generateBundleLogic env clinicArg departmentArg bucket
            = (Inr (bundlePathOf clinicArg departmentArg),
               bucket\<lparr>objects := AList.update (bundlePathOf clinicArg departmentArg)
                   (snapshot \<lparr>version = ''1.0'', clinic = clinicArg, department = departmentArg,
                              videos = []\<rparr>)
                   (objects bucket),
                 writes := writes bucket @ [bundlePathOf clinicArg departmentArg]\<rparr>))"
proof -
  have "\<And>fs. scanFiles clinicArg departmentArg fs = []"
    using assetKey_None_if_slash [OF assms] by (intro scanFiles_all_None)
  then have "\<And>fs. buildBundle clinicArg departmentArg fs
           = \<lparr>version = ''1.0'', clinic = clinicArg, department = departmentArg, videos = []\<rparr>"
    by (simp add: buildBundle_def videosOf_def)
  then show ?thesis by (simp add: generateBundleLogic_cases)
qed

theorem slash_in_namespace_empty_bundle_witness:
  "buildBundle ''a/b'' ''d1'' [''videos/a/b/d1/v1/x.mp4'']
     = \<lparr>version = ''1.0'', clinic = ''a/b'', department = ''d1'', videos = []\<rparr> \<and>
   matchAsset ''videos/a/b/d1/v1/x.mp4'' = Some (''a'', ''b'', ''d1'', ''v1'', ''mp4'') \<and>
   generateBundleLogic reliable ''a/b'' ''d1''
     \<lparr>objects = [(''videos/a/b/d1/v1/x.mp4'',
                   \<lparr>content = ''data'', contentType = ''video/mp4'', customMetadata = []\<rparr>)],
      writes = []\<rparr>
     = (Inr ''bundles/a/b/d1/bundle.json'',
        \<lparr>objects = [(''videos/a/b/d1/v1/x.mp4'',
                      \<lparr>content = ''data'', contentType = ''video/mp4'', customMetadata = []\<rparr>),
                    (''bundles/a/b/d1/bundle.json'',
                      snapshot \<lparr>version = ''1.0'', clinic = ''a/b'', department = ''d1'',
                                 videos = []\<rparr>)],
         writes = [''bundles/a/b/d1/bundle.json'']\<rparr>)"
proof -
  have s: "slash \<in> set ''a/b'' \<or> slash \<in> set ''d1''" by (simp add: slash_def)
  have m: "matchAsset ''videos/a/b/d1/v1/x.mp4'' = Some (''a'', ''b'', ''d1'', ''v1'', ''mp4'')"
    by (simp add: match_eval)
  from slash_in_namespace_empty_bundle [OF s, of "[''videos/a/b/d1/v1/x.mp4'']" reliable
      "\<lparr>objects = [(''videos/a/b/d1/v1/x.mp4'',
                   \<lparr>content = ''data'', contentType = ''video/mp4'', customMetadata = []\<rparr>)],
        writes = []\<rparr>"] m
  show ?thesis by (simp add: reliable_def bundlePathOf_def)
qed

section \<open>The Bundle Builder on the bucket\<close>

text \<open>
  Claim C1 (idempotence).  When two runs for the same namespace follow each other,
  the second on the bucket the first has left, both write the same snapshot: the
  serialised bundle of the names listed under the namespace's prefix before the first
  run.  The second run leaves every stored object as it was.
\<close>

theorem rebuild_is_idempotent:
  assumes "generateBundleLogic env1 clinicArg departmentArg bucket = (Inr path1, bucket1)"
    and "generateBundleLogic env2 clinicArg departmentArg bucket1 = (Inr path2, bucket2)"
  shows "path2 = path1 \<and>
         map_of (objects bucket1) path1
           = Some (snapshot (buildBundle clinicArg departmentArg
                               (listed (videosPrefix clinicArg departmentArg) bucket))) \<and>
         map_of (objects bucket2) path2 = map_of (objects bucket1) path1 \<and>
         objects bucket2 = objects bucket1"
proof -
  let ?p = "bundlePathOf clinicArg departmentArg"
  let ?pre = "videosPrefix clinicArg departmentArg"
  let ?snap = "snapshot (buildBundle clinicArg departmentArg (listed ?pre bucket))"
  from assms(1) have p1: "path1 = ?p"
    and b1: "bucket1 = bucket\<lparr>objects := AList.update ?p ?snap (objects bucket),
                              writes := writes bucket @ [?p]\<rparr>"
    by (auto simp: generateBundleLogic_cases split: if_splits)
  have same: "listed ?pre bucket1 = listed ?pre bucket"
    unfolding b1 by (rule listed_update) (rule bundlePath_not_under_videos)
  from assms(2) have p2: "path2 = ?p"
    and b2: "objects bucket2 = AList.update ?p ?snap (objects bucket1)"
    by (auto simp: generateBundleLogic_cases same split: if_splits)
  have o1: "objects bucket1 = AList.update ?p ?snap (objects bucket)" by (simp add: b1)
  have o2: "objects bucket2 = objects bucket1" by (simp add: b2 o1)
  have "map_of (objects bucket1) ?p = Some ?snap" by (simp add: o1 update_conv')
  with p1 p2 o2 show ?thesis by simp
qed

theorem rebuild_is_idempotent_witness:
  "fst (generateBundleLogic reliable ''c1'' ''d1'' exampleBucket) = Inr ''bundles/c1/d1/bundle.json'' \<and>
   fst (generateBundleLogic listingDown ''c1'' ''d1'' exampleBucket) = Inl (ListFailed ''videos/c1/d1/'') \<and>
   fst (generateBundleLogic reliable ''c1'' ''d1''
          (snd (generateBundleLogic reliable ''c1'' ''d1'' exampleBucket)))
     = Inr ''bundles/c1/d1/bundle.json'' \<and>
   map_of (objects (snd (generateBundleLogic reliable ''c1'' ''d1'' exampleBucket)))
       ''bundles/c1/d1/bundle.json''
     = Some (snapshot (buildBundle ''c1'' ''d1'' exampleListing)) \<and>
   objects (snd (generateBundleLogic reliable ''c1'' ''d1''
                   (snd (generateBundleLogic reliable ''c1'' ''d1'' exampleBucket))))
     = objects (snd (generateBundleLogic reliable ''c1'' ''d1'' exampleBucket))"
proof -
  let ?b1 = "snd (generateBundleLogic reliable ''c1'' ''d1'' exampleBucket)"
  let ?b2 = "snd (generateBundleLogic reliable ''c1'' ''d1'' ?b1)"
  have h1: "generateBundleLogic reliable ''c1'' ''d1'' exampleBucket
              = (Inr ''bundles/c1/d1/bundle.json'', ?b1)"
    by (simp add: generateBundleLogic_cases reliable_def bundlePathOf_def)
  have h2: "generateBundleLogic reliable ''c1'' ''d1'' ?b1 = (Inr ''bundles/c1/d1/bundle.json'', ?b2)"
    by (simp add: generateBundleLogic_cases reliable_def bundlePathOf_def)
  have l: "listed (videosPrefix ''c1'' ''d1'') exampleBucket = exampleListing"
    by (simp add: listed_def exampleBucket_def exampleListing_def videosPrefix_def startsWith_def)
  have f: "fst (generateBundleLogic listingDown ''c1'' ''d1'' exampleBucket)
             = Inl (ListFailed ''videos/c1/d1/'')"
    by (simp add: generateBundleLogic_cases listingDown_def videosPrefix_def)
  have f1: "fst (generateBundleLogic reliable ''c1'' ''d1'' exampleBucket)
              = Inr ''bundles/c1/d1/bundle.json''"
    by (simp add: generateBundleLogic_cases reliable_def bundlePathOf_def)
  have f2: "fst (generateBundleLogic reliable ''c1'' ''d1'' ?b1) = Inr ''bundles/c1/d1/bundle.json''"
    by (simp add: generateBundleLogic_cases reliable_def bundlePathOf_def)
  from rebuild_is_idempotent [OF h1 h2]
  have "map_of (objects ?b1) ''bundles/c1/d1/bundle.json''
          = Some (snapshot (buildBundle ''c1'' ''d1'' (listed (videosPrefix ''c1'' ''d1'') exampleBucket)))"
    and "objects ?b2 = objects ?b1"
    by blast+
  with l f f1 f2 show ?thesis by (simp only: simp_thms)
qed

text \<open>
  Claim C6 (a single write, no partial writes).  A run that returns has written once,
  the snapshot, as its last step.  A run that throws has changed nothing in the
  bucket; a rejected listing is such a run, and its error is the one thrown.
\<close>

theorem single_write_at_end:
  "(case generateBundleLogic env clinicArg departmentArg bucket of
      (Inl e, bucket') \<Rightarrow> bucket' = bucket
    | (Inr path, bucket') \<Rightarrow>
        path = bundlePathOf clinicArg departmentArg \<and>
        writes bucket' = writes bucket @ [path] \<and>
        objects bucket' = AList.update path
          (snapshot (buildBundle clinicArg departmentArg
                       (listed (videosPrefix clinicArg departmentArg) bucket)))
          (objects bucket)) \<and>
   (listFails env (videosPrefix clinicArg departmentArg) \<longrightarrow>
      generateBundleLogic env clinicArg departmentArg bucket
        = (Inl (ListFailed (videosPrefix clinicArg departmentArg)), bucket))"
  by (simp add: generateBundleLogic_cases)

theorem single_write_at_end_witness:
  "generateBundleLogic listingDown ''c1'' ''d1'' exampleBucket
     = (Inl (ListFailed ''videos/c1/d1/''), exampleBucket) \<and>
   fst (generateBundleLogic reliable ''c1'' ''d1'' exampleBucket) = Inr ''bundles/c1/d1/bundle.json'' \<and>
   writes (snd (generateBundleLogic reliable ''c1'' ''d1'' exampleBucket))
     = [''bundles/c1/d1/bundle.json'']"
proof -
  have d: "listFails listingDown (videosPrefix ''c1'' ''d1'')" by (simp add: listingDown_def)
  obtain b' where r: "generateBundleLogic reliable ''c1'' ''d1'' exampleBucket
     = (Inr (bundlePathOf ''c1'' ''d1''), b')"
    by (simp add: generateBundleLogic_cases reliable_def)
  from single_write_at_end [where env = listingDown and clinicArg = "''c1''"
      and departmentArg = "''d1''" and bucket = exampleBucket] d
  have 1: "generateBundleLogic listingDown ''c1'' ''d1'' exampleBucket
     = (Inl (ListFailed ''videos/c1/d1/''), exampleBucket)"
    by (simp add: videosPrefix_def)
  from single_write_at_end [where env = reliable and clinicArg = "''c1''"
      and departmentArg = "''d1''" and bucket = exampleBucket]
  have "writes b' = writes exampleBucket @ [bundlePathOf ''c1'' ''d1'']"
    unfolding r by simp
  then have 2: "writes b' = [''bundles/c1/d1/bundle.json'']"
    by (simp add: bundlePathOf_def exampleBucket_def)
  from 1 2 show ?thesis unfolding r by (simp add: bundlePathOf_def)
qed

section \<open>Properties of the Language Folder Initializer\<close>

lemma covered_iff: "covered b p \<longleftrightarrow> (\<exists>n \<in> fst ` set (objects b). startsWith n p)"
  by (auto simp: covered_def listed_def filter_empty_conv)

lemma placeholder_under_folder:
  "startsWith (placeholderPathOf c d n l) (langFolderPathOf c d n l)"
  by (simp add: placeholderPathOf_def startsWith_def)

lemma placeholderPathOf_inj:
  "placeholderPathOf c d n l = placeholderPathOf c d n l' \<Longrightarrow> l = l'"
  by (simp add: placeholderPathOf_def langFolderPathOf_def)

lemma provision_step:
  "provision env c d n (l # ls) b =
     (if listFails env (langFolderPathOf c d n l) then (Inl (ListFailed (langFolderPathOf c d n l)), b)
      else if covered b (langFolderPathOf c d n l) then provision env c d n ls b
      else if saveFails env (placeholderPathOf c d n l)
           then (Inl (SaveFailed (placeholderPathOf c d n l)), b)
      else provision env c d n ls
             (b\<lparr>objects := AList.update (placeholderPathOf c d n l) (marker env n l) (objects b),
                writes := writes b @ [placeholderPathOf c d n l]\<rparr>))"
proof -
  have "length (take 1 (listed (langFolderPathOf c d n l) b)) = 0 \<longleftrightarrow>
          \<not> covered b (langFolderPathOf c d n l)"
    by (cases "listed (langFolderPathOf c d n l) b") (simp_all add: covered_def)
  then show ?thesis
    by (simp add: getFiles_def save_def del: length_take length_0_conv)
qed

lemma covered_after_save:
  "covered b p \<Longrightarrow> covered (b\<lparr>objects := AList.update path obj (objects b), writes := w\<rparr>) p"
  by (auto simp: covered_iff dom_update)

lemma covered_marker:
  "covered (b\<lparr>objects := AList.update (placeholderPathOf c d n l) obj (objects b), writes := w\<rparr>)
     (langFolderPathOf c d n l)"
  using placeholder_under_folder [of c d n l] by (auto simp: covered_iff dom_update)

lemma provision_covered_mono:
  "covered b p \<Longrightarrow> covered (snd (provision env c d n ls b)) p"
proof (induction ls arbitrary: b)
  case Nil
  then show ?case by simp
next
  case (Cons l ls)
  then show ?case
    by (simp add: provision_step covered_after_save del: provision.simps)
qed

lemma provision_success_covers:
  "fst (provision env c d n ls b) = Inr () \<Longrightarrow> l \<in> set ls \<Longrightarrow>
   covered (snd (provision env c d n ls b)) (langFolderPathOf c d n l)"
proof (induction ls arbitrary: b)
  case Nil
  then show ?case by simp
next
  case (Cons l0 ls)
  let ?b1 = "b\<lparr>objects := AList.update (placeholderPathOf c d n l0) (marker env n l0) (objects b),
                writes := writes b @ [placeholderPathOf c d n l0]\<rparr>"
  from Cons.prems(1) have nf: "\<not> listFails env (langFolderPathOf c d n l0)"
    by (auto simp: provision_step simp del: provision.simps split: if_splits)
  show ?case
  proof (cases "covered b (langFolderPathOf c d n l0)")
    case True
    then have eq: "provision env c d n (l0 # ls) b = provision env c d n ls b"
      using nf by (simp add: provision_step del: provision.simps)
    show ?thesis
    proof (cases "l = l0")
      case True
      with \<open>covered b (langFolderPathOf c d n l0)\<close> show ?thesis
        unfolding eq by (simp add: provision_covered_mono)
    next
      case False
      with Cons.prems have "l \<in> set ls" "fst (provision env c d n ls b) = Inr ()"
        unfolding eq by auto
      then show ?thesis unfolding eq using Cons.IH by blast
    qed
  next
    case False
    with Cons.prems(1) nf have ns: "\<not> saveFails env (placeholderPathOf c d n l0)"
      by (auto simp: provision_step simp del: provision.simps split: if_splits)
    with False nf have eq: "provision env c d n (l0 # ls) b = provision env c d n ls ?b1"
      by (simp add: provision_step del: provision.simps)
    show ?thesis
    proof (cases "l = l0")
      case True
      have "covered ?b1 (langFolderPathOf c d n l0)" by (rule covered_marker)
      with True show ?thesis unfolding eq by (simp add: provision_covered_mono)
    next
      case False
      with Cons.prems have "l \<in> set ls" "fst (provision env c d n ls ?b1) = Inr ()"
        unfolding eq by auto
      then show ?thesis unfolding eq using Cons.IH by blast
    qed
  qed
qed

lemma provision_all_covered:
  "(\<And>l. l \<in> set ls \<Longrightarrow> covered b (langFolderPathOf c d n l)) \<Longrightarrow>
   snd (provision env c d n ls b) = b"
proof (induction ls)
  case Nil
  show ?case by simp
next
  case (Cons l ls)
  then show ?case by (simp add: provision_step del: provision.simps)
qed

lemma provision_writes:
  "\<exists>ws. writes (snd (provision env c d n ls b)) = writes b @ ws \<and>
        set ws \<subseteq> {placeholderPathOf c d n l | l. l \<in> set ls \<and> \<not> covered b (langFolderPathOf c d n l)}"
proof (induction ls arbitrary: b)
  case Nil
  show ?case by simp
next
  case (Cons l0 ls)
  let ?b1 = "b\<lparr>objects := AList.update (placeholderPathOf c d n l0) (marker env n l0) (objects b),
                writes := writes b @ [placeholderPathOf c d n l0]\<rparr>"
  let ?T = "{placeholderPathOf c d n l | l. l \<in> set (l0 # ls) \<and> \<not> covered b (langFolderPathOf c d n l)}"
  consider (stop) "snd (provision env c d n (l0 # ls) b) = b"
    | (skip) "covered b (langFolderPathOf c d n l0)"
        "provision env c d n (l0 # ls) b = provision env c d n ls b"
    | (mark) "\<not> covered b (langFolderPathOf c d n l0)"
        "provision env c d n (l0 # ls) b = provision env c d n ls ?b1"
  proof -
    assume stop: "snd (provision env c d n (l0 # ls) b) = b \<Longrightarrow> thesis"
      and skip: "covered b (langFolderPathOf c d n l0) \<Longrightarrow>
        provision env c d n (l0 # ls) b = provision env c d n ls b \<Longrightarrow> thesis"
      and mark: "\<not> covered b (langFolderPathOf c d n l0) \<Longrightarrow>
        provision env c d n (l0 # ls) b = provision env c d n ls ?b1 \<Longrightarrow> thesis"
    show thesis
    proof (cases "listFails env (langFolderPathOf c d n l0)")
      case True
      then show thesis by (intro stop) (simp add: provision_step del: provision.simps)
    next
      case nf: False
      show thesis
      proof (cases "covered b (langFolderPathOf c d n l0)")
        case True
        with nf show thesis by (intro skip) (simp_all add: provision_step del: provision.simps)
      next
        case nc: False
        show thesis
        proof (cases "saveFails env (placeholderPathOf c d n l0)")
          case True
          with nf nc show thesis by (intro stop) (simp add: provision_step del: provision.simps)
        next
          case False
          with nf nc show thesis by (intro mark) (simp_all add: provision_step del: provision.simps)
        qed
      qed
    qed
  qed
  then show ?case
  proof cases
    case stop
    then have "writes (snd (provision env c d n (l0 # ls) b)) = writes b @ [] \<and> set [] \<subseteq> ?T"
      by simp
    then show ?thesis by blast
  next
    case skip
    from Cons.IH [of b] obtain ws where ws: "writes (snd (provision env c d n ls b)) = writes b @ ws"
      "set ws \<subseteq> {placeholderPathOf c d n l | l. l \<in> set ls \<and> \<not> covered b (langFolderPathOf c d n l)}"
      by blast
    from ws(2) have "set ws \<subseteq> ?T" by auto
    with ws(1) skip(2) show ?thesis by auto
  next
    case mark
    from Cons.IH [of ?b1] obtain ws where ws: "writes (snd (provision env c d n ls ?b1)) = writes ?b1 @ ws"
      "set ws \<subseteq> {placeholderPathOf c d n l | l. l \<in> set ls \<and> \<not> covered ?b1 (langFolderPathOf c d n l)}"
      by blast
    have "set ws \<subseteq> ?T"
    proof
      fix w assume "w \<in> set ws"
      with ws(2) obtain l where l: "w = placeholderPathOf c d n l" "l \<in> set ls"
        "\<not> covered ?b1 (langFolderPathOf c d n l)" by blast
      from l(3) have "\<not> covered b (langFolderPathOf c d n l)"
        using covered_after_save by blast
      with l(1,2) show "w \<in> ?T" by auto
    qed
    with mark(1) have "set (placeholderPathOf c d n l0 # ws) \<subseteq> ?T" by auto
    moreover have "writes (snd (provision env c d n (l0 # ls) b)) = writes b @ (placeholderPathOf c d n l0 # ws)"
      using ws(1) mark(2) by simp
    ultimately show ?thesis by blast
  qed
qed

lemma provision_twice:
  assumes "listFails env2 = listFails env1" and "saveFails env2 = saveFails env1"
  shows "snd (provision env2 c d n ls (snd (provision env1 c d n ls b)))
           = snd (provision env1 c d n ls b)"
proof (induction ls arbitrary: b)
  case Nil
  show ?case by simp
next
  case (Cons l ls)
  let ?b1 = "b\<lparr>objects := AList.update (placeholderPathOf c d n l) (marker env1 n l) (objects b),
                writes := writes b @ [placeholderPathOf c d n l]\<rparr>"
  show ?case
  proof (cases "listFails env1 (langFolderPathOf c d n l)")
    case True
    then show ?thesis using assms by (simp add: provision_step del: provision.simps)
  next
    case nf: False
    show ?thesis
    proof (cases "covered b (langFolderPathOf c d n l)")
      case True
      with nf have eq: "provision env1 c d n (l # ls) b = provision env1 c d n ls b"
        by (simp add: provision_step del: provision.simps)
      have "covered (snd (provision env1 c d n ls b)) (langFolderPathOf c d n l)"
        using True by (rule provision_covered_mono)
      then show ?thesis
        unfolding eq using nf assms Cons.IH [of b] by (simp add: provision_step del: provision.simps)
    next
      case nc: False
      show ?thesis
      proof (cases "saveFails env1 (placeholderPathOf c d n l)")
        case True
        with nf nc show ?thesis using assms by (simp add: provision_step del: provision.simps)
      next
        case False
        with nf nc have eq: "provision env1 c d n (l # ls) b = provision env1 c d n ls ?b1"
          by (simp add: provision_step del: provision.simps)
        have "covered ?b1 (langFolderPathOf c d n l)" by (rule covered_marker)
        then have "covered (snd (provision env1 c d n ls ?b1)) (langFolderPathOf c d n l)"
          by (rule provision_covered_mono)
        then show ?thesis
          unfolding eq using nf assms Cons.IH [of ?b1]
          by (simp add: provision_step del: provision.simps)
      qed
    qed
  qed
qed

lemma trim_blank:
  assumes "\<forall>ch \<in> set s. isWhiteSpace ch"
  shows "trim s = []"
  using assms by (auto simp: trim_def dest: set_dropWhileD)

text \<open>
  Claim C7 (folder idempotence).  A second call with the same arguments, on the bucket
  the first call has left, leaves that bucket as it is and so writes no marker.  This
  holds when the first call has returned, whatever the service does in the second,
  and also when the first call has thrown, as long as the service rejects the same
  listings and writes in both.  And in any call, a language whose prefix is covered
  beforehand is not among the markers the call writes.
\<close>

theorem folders_idempotent:
  "(fst (createLanguageFolders env1 clinicArg departmentArg videoName langs bucket) = Inr () \<or>
    (listFails env2 = listFails env1 \<and> saveFails env2 = saveFails env1)
      \<longrightarrow> snd (createLanguageFolders env2 clinicArg departmentArg videoName langs
                 (snd (createLanguageFolders env1 clinicArg departmentArg videoName langs bucket)))
            = snd (createLanguageFolders env1 clinicArg departmentArg videoName langs bucket)) \<and>
   (lang \<in> set langs \<and>
    covered bucket (langFolderPathOf clinicArg departmentArg (trim videoName) lang)
      \<longrightarrow> placeholderPathOf clinicArg departmentArg (trim videoName) lang
            \<notin> set (created bucket
                      (snd (createLanguageFolders env1 clinicArg departmentArg videoName langs bucket))))"
proof (intro conjI impI)
  let ?n = "trim videoName"
  let ?b1 = "snd (createLanguageFolders env1 clinicArg departmentArg videoName langs bucket)"
  assume a: "fst (createLanguageFolders env1 clinicArg departmentArg videoName langs bucket) = Inr () \<or>
    (listFails env2 = listFails env1 \<and> saveFails env2 = saveFails env1)"
  show "snd (createLanguageFolders env2 clinicArg departmentArg videoName langs ?b1) = ?b1"
  proof (cases "?n = []")
    case True
    then show ?thesis by (simp add: createLanguageFolders_def)
  next
    case False
    then have b1: "?b1 = snd (provision env1 clinicArg departmentArg ?n langs bucket)"
      by (simp add: createLanguageFolders_def)
    from a have "snd (provision env2 clinicArg departmentArg ?n langs ?b1) = ?b1"
    proof
      assume "fst (createLanguageFolders env1 clinicArg departmentArg videoName langs bucket) = Inr ()"
      with False have "fst (provision env1 clinicArg departmentArg ?n langs bucket) = Inr ()"
        by (simp add: createLanguageFolders_def)
      then have "\<And>l. l \<in> set langs \<Longrightarrow> covered ?b1 (langFolderPathOf clinicArg departmentArg ?n l)"
        unfolding b1 by (rule provision_success_covers)
      then show ?thesis by (rule provision_all_covered)
    next
      assume "listFails env2 = listFails env1 \<and> saveFails env2 = saveFails env1"
      then show ?thesis unfolding b1 by (intro provision_twice) simp_all
    qed
    with False show ?thesis by (simp add: createLanguageFolders_def Let_def)
  qed
next
  let ?n = "trim videoName"
  assume a: "lang \<in> set langs \<and> covered bucket (langFolderPathOf clinicArg departmentArg ?n lang)"
  show "placeholderPathOf clinicArg departmentArg ?n lang
          \<notin> set (created bucket
                    (snd (createLanguageFolders env1 clinicArg departmentArg videoName langs bucket)))"
  proof (cases "?n = []")
    case True
    then show ?thesis by (simp add: createLanguageFolders_def created_def)
  next
    case False
    from provision_writes [of env1 clinicArg departmentArg ?n langs bucket]
    obtain ws where ws: "writes (snd (provision env1 clinicArg departmentArg ?n langs bucket)) = writes bucket @ ws"
      "set ws \<subseteq> {placeholderPathOf clinicArg departmentArg ?n l | l.
                    l \<in> set langs \<and> \<not> covered bucket (langFolderPathOf clinicArg departmentArg ?n l)}"
      by blast
    have "placeholderPathOf clinicArg departmentArg ?n lang \<notin> set ws"
    proof
      assume "placeholderPathOf clinicArg departmentArg ?n lang \<in> set ws"
      with ws(2) obtain l where l: "placeholderPathOf clinicArg departmentArg ?n lang
            = placeholderPathOf clinicArg departmentArg ?n l"
        "\<not> covered bucket (langFolderPathOf clinicArg departmentArg ?n l)" by blast
      from placeholderPathOf_inj [OF l(1)] l(2) a show False by simp
    qed
    with False ws(1) show ?thesis by (simp add: createLanguageFolders_def created_def)
  qed
qed

theorem folders_idempotent_witness:
  "created exampleBucket
     (snd (createLanguageFolders reliable ''c1'' ''d1'' '' v1 '' [''en'', ''de''] exampleBucket))
     = [''videos/c1/d1/v1/de/.placeholder''] \<and>
   snd (createLanguageFolders reliable ''c1'' ''d1'' '' v1 '' [''en'', ''de'']
          (snd (createLanguageFolders reliable ''c1'' ''d1'' '' v1 '' [''en'', ''de''] exampleBucket)))
     = snd (createLanguageFolders reliable ''c1'' ''d1'' '' v1 '' [''en'', ''de''] exampleBucket) \<and>
   ''videos/c1/d1/v1/en/.placeholder''
     \<notin> set (created exampleBucket
          (snd (createLanguageFolders reliable ''c1'' ''d1'' '' v1 '' [''en'', ''de''] exampleBucket))) \<and>
   createLanguageFolders savingDown ''c1'' ''d1'' '' v1 '' [''en'', ''de''] exampleBucket
     = (Inl (SaveFailed ''videos/c1/d1/v1/de/.placeholder''), exampleBucket)"
proof -
  let ?b1 = "snd (createLanguageFolders reliable ''c1'' ''d1'' '' v1 '' [''en'', ''de''] exampleBucket)"
  have t: "trim '' v1 '' = ''v1''" by (simp add: trim_def isWhiteSpace_def)
  have c: "created exampleBucket ?b1 = [''videos/c1/d1/v1/de/.placeholder'']"
    by (simp add: created_def createLanguageFolders_def t exampleBucket_def exampleListing_def
        reliable_def storage_eval)
  have h1: "fst (createLanguageFolders reliable ''c1'' ''d1'' '' v1 '' [''en'', ''de''] exampleBucket)
              = Inr ()"
    by (simp add: createLanguageFolders_def t exampleBucket_def exampleListing_def
        reliable_def storage_eval)
  have h2: "''en'' \<in> set [''en'', ''de''] \<and>
            covered exampleBucket (langFolderPathOf ''c1'' ''d1'' (trim '' v1 '') ''en'')"
    by (simp add: covered_def t exampleBucket_def exampleListing_def storage_eval)
  have f: "createLanguageFolders savingDown ''c1'' ''d1'' '' v1 '' [''en'', ''de''] exampleBucket
     = (Inl (SaveFailed ''videos/c1/d1/v1/de/.placeholder''), exampleBucket)"
    by (simp add: createLanguageFolders_def t exampleBucket_def exampleListing_def
        savingDown_def storage_eval)
  from folders_idempotent [where ?env1.0 = reliable and ?env2.0 = reliable and clinicArg = "''c1''"
      and departmentArg = "''d1''" and videoName = "'' v1 ''" and langs = "[''en'', ''de'']"
      and bucket = exampleBucket and lang = "''en''"] h1 h2
  have "snd (createLanguageFolders reliable ''c1'' ''d1'' '' v1 '' [''en'', ''de''] ?b1) = ?b1"
    and "placeholderPathOf ''c1'' ''d1'' (trim '' v1 '') ''en'' \<notin> set (created exampleBucket ?b1)"
    by blast+
  with c f show ?thesis by (simp add: t placeholderPathOf_def langFolderPathOf_def)
qed

text \<open>
  Claim C8 (blank video name).  When \<open>videoName\<close> consists of white space only, the
  empty string included, the call returns normally and the bucket is unchanged.
\<close>

theorem blank_video_name_is_noop:
  assumes "\<forall>ch \<in> set videoName. isWhiteSpace ch"
  shows "createLanguageFolders env clinicArg departmentArg videoName langs bucket = (Inr (), bucket)"
  using trim_blank [OF assms] by (simp add: createLanguageFolders_def)

theorem blank_video_name_is_noop_witness:
  "createLanguageFolders reliable ''c1'' ''d1'' [] SUPPORTED_LANGUAGES emptyBucket = (Inr (), emptyBucket) \<and>
   createLanguageFolders listingDown ''c1'' ''d1'' [CHR '' '', CHR 0x09, CHR 0xA0] SUPPORTED_LANGUAGES
     exampleBucket = (Inr (), exampleBucket)"
proof -
  have 1: "\<forall>ch \<in> set []. isWhiteSpace ch" by simp
  have 2: "\<forall>ch \<in> set [CHR '' '', CHR 0x09, CHR 0xA0]. isWhiteSpace ch"
    by (simp add: isWhiteSpace_def)
  from blank_video_name_is_noop [OF 1] blank_video_name_is_noop [OF 2] show ?thesis by blast
qed

section \<open>The upload handler\<close>

text \<open>
  Claim C9 (upload notification), as the code has it.  For an object name
  \<open>videos/<clinic>/<department>/<third>/...\<close> whose first three segments below the
  root are non-empty and whose third segment is followed by a \<open>/\<close>, that is, by at
  least one more segment, the handler does what the Initializer does when called with
  the third segment as \<open>videoName\<close> and the sixteen supported languages.
\<close>

theorem upload_provisions_video_folder:
  assumes "splitSlash path = ''videos'' # clinicSeg # departmentSeg # videoName # seg # rest"
    and "clinicSeg \<noteq> []" and "departmentSeg \<noteq> []" and "videoName \<noteq> []"
  shows "onObjectFinalized_createLanguageFolders env path bucket
           = snd (createLanguageFolders env clinicSeg departmentSeg videoName
                    SUPPORTED_LANGUAGES bucket) \<and>
         length SUPPORTED_LANGUAGES = 16"
  using matchVideoDir_segments [OF assms]
  by (simp add: onObjectFinalized_createLanguageFolders_def SUPPORTED_LANGUAGES_def)

theorem upload_provisions_video_folder_witness:
  "onObjectFinalized_createLanguageFolders reliable ''videos/c1/d1/v1/en/a.mp4'' emptyBucket
     = snd (createLanguageFolders reliable ''c1'' ''d1'' ''v1'' SUPPORTED_LANGUAGES emptyBucket) \<and>
   length SUPPORTED_LANGUAGES = 16 \<and>
   writes (onObjectFinalized_createLanguageFolders reliable ''videos/c1/d1/v1/en/a.mp4'' emptyBucket)
     = map (\<lambda>lang. ''videos/c1/d1/v1/'' @ lang @ ''/.placeholder'') SUPPORTED_LANGUAGES"
proof -
  have s: "splitSlash ''videos/c1/d1/v1/en/a.mp4''
             = ''videos'' # ''c1'' # ''d1'' # ''v1'' # ''en'' # [''a.mp4'']"
    by (simp add: slash_def)
  have w: "writes (snd (createLanguageFolders reliable ''c1'' ''d1'' ''v1'' SUPPORTED_LANGUAGES emptyBucket))
     = map (\<lambda>lang. ''videos/c1/d1/v1/'' @ lang @ ''/.placeholder'') SUPPORTED_LANGUAGES"
    by (simp add: createLanguageFolders_def trim_def isWhiteSpace_def SUPPORTED_LANGUAGES_def
        reliable_def emptyBucket_def storage_eval)
  from upload_provisions_video_folder [OF s, of reliable emptyBucket] w
  show ?thesis by simp
qed

text \<open>
  The claim as it was stated, for every name that has a third segment, fails when the
  third segment is the last one: for an asset uploaded directly into the department
  folder the handler does nothing, while the Initializer called with that segment
  would provision sixteen folders.
\<close>

theorem upload_third_segment_counterexample:
  "splitSlash ''videos/c1/d1/intro.mp4'' = [''videos'', ''c1'', ''d1'', ''intro.mp4''] \<and>
   onObjectFinalized_createLanguageFolders reliable ''videos/c1/d1/intro.mp4'' emptyBucket
     \<noteq> snd (createLanguageFolders reliable ''c1'' ''d1'' ''intro.mp4'' SUPPORTED_LANGUAGES emptyBucket)"
proof -
  have s: "splitSlash ''videos/c1/d1/intro.mp4'' = [''videos'', ''c1'', ''d1'', ''intro.mp4'']"
    by (simp add: slash_def)
  have h: "onObjectFinalized_createLanguageFolders reliable ''videos/c1/d1/intro.mp4'' emptyBucket
             = emptyBucket"
    by (simp add: onObjectFinalized_createLanguageFolders_def matchVideoDir_def videosRoot_def
        startsWith_def segment_def slash_def)
  have w: "writes (snd (createLanguageFolders reliable ''c1'' ''d1'' ''intro.mp4''
                          SUPPORTED_LANGUAGES emptyBucket))
     = map (\<lambda>lang. ''videos/c1/d1/intro.mp4/'' @ lang @ ''/.placeholder'') SUPPORTED_LANGUAGES"
    by (simp add: createLanguageFolders_def trim_def isWhiteSpace_def SUPPORTED_LANGUAGES_def
        reliable_def emptyBucket_def storage_eval)
  have "writes emptyBucket = []" by (simp add: emptyBucket_def)
  with w have "snd (createLanguageFolders reliable ''c1'' ''d1'' ''intro.mp4''
                      SUPPORTED_LANGUAGES emptyBucket) \<noteq> emptyBucket"
    by (auto simp: SUPPORTED_LANGUAGES_def)
  with s h show ?thesis by simp
qed

end
